theory Spec2Isabelle
  imports Complex_Main "HOL-Library.Sublist"
begin

section \<open>Python values used by the mesh loader\<close>

text \<open>
  The loader of \<^verbatim>\<open>engine.py\<close> works on the lines of a text file. A Python \<^verbatim>\<open>str\<close> is
  modelled as a \<open>string\<close> whose characters are the code points below 256; on that range the
  whitespace of \<^verbatim>\<open>str.strip\<close> and \<^verbatim>\<open>str.split\<close> and the digits of \<^verbatim>\<open>int\<close> and \<^verbatim>\<open>float\<close> are
  exactly the ones below. Python's \<^verbatim>\<open>int\<close> is unbounded and becomes \<open>int\<close>.

  A floating-point operation is modelled as the exact operation on \<open>real\<close> followed by a
  rounding function, which is a parameter of every definition that computes with floats:
  \<open>fd\<close> rounds to a Python \<^verbatim>\<open>float\<close> (a double), \<open>ff\<close> to the 32-bit floats of
  \<^verbatim>\<open>numpy.float32\<close> and \<^verbatim>\<open>glm.vec3\<close>. Exact arithmetic is the instance where both are the
  identity. The exponent range is unbounded (no overflow to infinity), and the two zeros
  are one.
\<close>

type_synonym rounding = "real \<Rightarrow> real"

text \<open>
  What the theorems below use of a rounding, where they use anything: it is monotone and
  keeps the integers of magnitude up to \<open>2 ^ 24\<close>, which both formats represent exactly.
\<close>

definition rounds :: "rounding \<Rightarrow> bool" where
  "rounds f = (mono f \<and> (\<forall>n::int. \<bar>n\<bar> \<le> 2 ^ 24 \<longrightarrow> f (real_of_int n) = real_of_int n))"

datatype pyfloat = Fin real | PosInf | NegInf | NaN

datatype exn =
    OSError
  | IndexError
  | ValueError string

definition ebind :: "exn + 'a \<Rightarrow> ('a \<Rightarrow> exn + 'b) \<Rightarrow> exn + 'b" where
  "ebind m f = (case m of Inl e \<Rightarrow> Inl e | Inr v \<Rightarrow> f v)"

text \<open>\<^verbatim>\<open>xs[i]\<close>: a negative index counts from the end, anything else out of range raises.\<close>

definition getitem :: "'a list \<Rightarrow> int \<Rightarrow> exn + 'a" where
  "getitem xs i =
     (if 0 \<le> i \<and> i < int (length xs) then Inr (xs ! nat i)
      else if i < 0 \<and> - int (length xs) \<le> i then Inr (xs ! nat (int (length xs) + i))
      else Inl IndexError)"

text \<open>\<^verbatim>\<open>range(n)\<close> is empty for \<open>n \<le> 0\<close>.\<close>

definition py_range :: "int \<Rightarrow> int list" where
  "py_range n = map int [0..<nat n]"

subsection \<open>Strings\<close>

text \<open>\<^verbatim>\<open>str.isspace\<close> on one character: TAB, LF, VT, FF, CR, FS, GS, RS, US, space, NEL, NBSP.\<close>

definition isspace :: "char \<Rightarrow> bool" where
  "isspace c = ((of_char c :: nat) \<in> {9, 10, 11, 12, 13, 28, 29, 30, 31, 32, 133, 160})"

definition strip :: "string \<Rightarrow> string" where
  "strip s = rev (dropWhile isspace (rev (dropWhile isspace s)))"

text \<open>\<^verbatim>\<open>s.split()\<close>: the maximal runs of non-whitespace characters, in order.\<close>

fun split_from :: "string \<Rightarrow> string \<Rightarrow> string list" where
  "split_from cur [] = (if cur = [] then [] else [cur])"
| "split_from cur (c # cs) =
     (if isspace c then (if cur = [] then split_from [] cs else cur # split_from [] cs)
      else split_from (cur @ [c]) cs)"

definition split :: "string \<Rightarrow> string list" where
  "split s = split_from [] s"

text \<open>\<^verbatim>\<open>sub in s\<close> on strings: \<open>sub\<close> occurs in \<open>s\<close> as a contiguous run.\<close>

fun contains :: "string \<Rightarrow> string \<Rightarrow> bool" where
  "contains sub [] = (sub = [])"
| "contains sub (c # cs) = (prefix sub (c # cs) \<or> contains sub cs)"

subsection \<open>Numbers from text\<close>

definition isdigit :: "char \<Rightarrow> bool" where
  "isdigit c = (48 \<le> (of_char c :: nat) \<and> (of_char c :: nat) \<le> 57)"

definition digit_val :: "char \<Rightarrow> nat" where
  "digit_val c = of_char c - 48"

definition digits_val :: "string \<Rightarrow> nat" where
  "digits_val ds = foldl (\<lambda>a c. 10 * a + digit_val c) 0 ds"

text \<open>
  Digit grouping: an underscore is accepted only between two digits. The function removes
  the underscores of such a text and refuses any other placement; \<open>prev\<close> is the character
  before.
\<close>

fun drop_underscores :: "char option \<Rightarrow> string \<Rightarrow> string option" where
  "drop_underscores prev [] = (if prev = Some (CHR ''_'') then None else Some [])"
| "drop_underscores prev (c # cs) =
     (if c = CHR ''_'' then
        (case prev of
           None \<Rightarrow> None
         | Some p \<Rightarrow> if isdigit p then drop_underscores (Some c) cs else None)
      else if prev = Some (CHR ''_'') \<and> \<not> isdigit c then None
      else map_option ((#) c) (drop_underscores (Some c) cs))"

text \<open>An unsigned decimal numeral: at least one digit, underscores only between digits.\<close>

definition py_digits :: "string \<Rightarrow> nat option" where
  "py_digits s =
     (case drop_underscores None s of
        None \<Rightarrow> None
      | Some ds \<Rightarrow> if ds \<noteq> [] \<and> list_all isdigit ds then Some (digits_val ds) else None)"

text \<open>
  \<^verbatim>\<open>int(tok)\<close> in base 10, on a token that holds no whitespace (every argument of \<^verbatim>\<open>int\<close> in
  the loader is a piece of \<^verbatim>\<open>split()\<close>): an optional sign and a decimal numeral. The limit on
  the number of digits that recent interpreters put on the conversion is not modelled.
\<close>

definition py_int :: "string \<Rightarrow> exn + int" where
  "py_int s =
     (case (case s of
              [] \<Rightarrow> None
            | c # cs \<Rightarrow>
                if c = CHR ''-'' then map_option (\<lambda>n. - int n) (py_digits cs)
                else if c = CHR ''+'' then map_option int (py_digits cs)
                else map_option int (py_digits s)) of
        None \<Rightarrow> Inl (ValueError ''invalid literal for int() with base 10'')
      | Some v \<Rightarrow> Inr v)"

definition lower :: "char \<Rightarrow> char" where
  "lower c = (if 65 \<le> (of_char c :: nat) \<and> (of_char c :: nat) \<le> 90
              then char_of ((of_char c :: nat) + 32) else c)"

text \<open>The exponent part of a decimal literal: empty, or \<^verbatim>\<open>e\<close>/\<^verbatim>\<open>E\<close>, an optional sign, digits.\<close>

definition float_exponent :: "string \<Rightarrow> int option" where
  "float_exponent s =
     (case s of
        [] \<Rightarrow> Some 0
      | c # cs \<Rightarrow>
          if lower c \<noteq> CHR ''e'' then None
          else (case cs of
                  [] \<Rightarrow> None
                | d # ds \<Rightarrow>
                    if d = CHR ''-'' then
                      (if ds \<noteq> [] \<and> list_all isdigit ds then Some (- int (digits_val ds)) else None)
                    else if d = CHR ''+'' then
                      (if ds \<noteq> [] \<and> list_all isdigit ds then Some (int (digits_val ds)) else None)
                    else
                      (if list_all isdigit cs then Some (int (digits_val cs)) else None)))"

text \<open>
  An unsigned decimal literal without underscores: digits, an optional point and digits, an
  optional exponent, with a digit before or after the point. The result is its exact value.
\<close>

definition float_decimal :: "string \<Rightarrow> real option" where
  "float_decimal s =
     (let ip = takeWhile isdigit s;
          r1 = dropWhile isdigit s;
          fp = (case r1 of [] \<Rightarrow> [] | c # cs \<Rightarrow> if c = CHR ''.'' then takeWhile isdigit cs else []);
          r2 = (case r1 of [] \<Rightarrow> [] | c # cs \<Rightarrow> if c = CHR ''.'' then dropWhile isdigit cs else r1)
      in if ip = [] \<and> fp = [] then None
         else (case float_exponent r2 of
                 None \<Rightarrow> None
               | Some ex \<Rightarrow>
                   let m = real (digits_val (ip @ fp)); e = ex - int (length fp)
                   in Some (if 0 \<le> e then m * 10 ^ nat e else m / 10 ^ nat (- e))))"

text \<open>The body of a float literal after its sign: a special value or a decimal literal.\<close>

definition float_unsigned :: "rounding \<Rightarrow> bool \<Rightarrow> string \<Rightarrow> pyfloat option" where
  "float_unsigned fd neg s =
     (if map lower s = ''inf'' \<or> map lower s = ''infinity'' then Some (if neg then NegInf else PosInf)
      else if map lower s = ''nan'' then Some NaN
      else map_option (\<lambda>v. Fin (fd (if neg then - v else v))) (float_decimal s))"

text \<open>
  \<^verbatim>\<open>float(tok)\<close> on a token that holds no whitespace: underscores between digits are dropped,
  then an optional sign and the body. The literal's exact value is rounded by \<open>fd\<close>.
\<close>

definition py_float :: "rounding \<Rightarrow> string \<Rightarrow> exn + pyfloat" where
  "py_float fd s =
     (case (case drop_underscores None s of
              None \<Rightarrow> None
            | Some t \<Rightarrow>
                (case t of
                   [] \<Rightarrow> None
                 | c # cs \<Rightarrow>
                     if c = CHR ''-'' then float_unsigned fd True cs
                     else if c = CHR ''+'' then float_unsigned fd False cs
                     else float_unsigned fd False t)) of
        None \<Rightarrow> Inl (ValueError ''could not convert string to float'')
      | Some v \<Rightarrow> Inr v)"

text \<open>\<^verbatim>\<open>x / 255.0\<close> and the conversion to \<^verbatim>\<open>float32\<close>, on the special values too.\<close>

definition fdiv :: "rounding \<Rightarrow> pyfloat \<Rightarrow> real \<Rightarrow> pyfloat" where
  "fdiv fd a b = (case a of Fin v \<Rightarrow> Fin (fd (v / b)) | PosInf \<Rightarrow> PosInf | NegInf \<Rightarrow> NegInf | NaN \<Rightarrow> NaN)"

definition float32 :: "rounding \<Rightarrow> pyfloat \<Rightarrow> pyfloat" where
  "float32 ff a = (case a of Fin v \<Rightarrow> Fin (ff v) | PosInf \<Rightarrow> PosInf | NegInf \<Rightarrow> NegInf | NaN \<Rightarrow> NaN)"

text \<open>\<^verbatim>\<open>str(n)\<close> for an integer, as the progress message prints it.\<close>

function str_nat :: "nat \<Rightarrow> string" where
  "str_nat n = (if n < 10 then [char_of (48 + n)] else str_nat (n div 10) @ [char_of (48 + n mod 10)])"
  by pat_completeness auto
termination
  by (relation "measure id") auto

definition str_int :: "int \<Rightarrow> string" where
  "str_int i = (if i < 0 then CHR ''-'' # str_nat (nat (- i)) else str_nat (nat i))"

section \<open>The mesh loader\<close>

text \<open>
  \<^verbatim>\<open>load_custom_off(filepath, progress_callback)\<close>. What \<^verbatim>\<open>open(filepath).readlines()\<close> gives is
  the input: the list of lines, or the exception it raises (a missing file, bytes that do
  not decode). The callback is an external collaborator: the model records whether one was
  supplied and the calls made to it, in order, and takes it that each call returns. What
  the function prints is recorded as a list of entries.
\<close>

type_synonym vertex = "pyfloat list"

type_synonym progress_call = "real \<times> string"

datatype text_file = Unreadable exn | Lines "string list"

datatype log_entry = Loading | Loaded nat | Failed exn

record faces_state =
  final_vertices :: "vertex list"
  final_colors :: "vertex list"
  calls :: "progress_call list"

record load_result =
  returned :: "(vertex list \<times> vertex list) option"
  callbacks :: "progress_call list"
  printed :: "log_entry list"

text \<open>\<^verbatim>\<open>list(map(f, xs))\<close> where \<open>f\<close> may raise: the first exception ends the evaluation.\<close>

fun py_map :: "('a \<Rightarrow> exn + 'b) \<Rightarrow> 'a list \<Rightarrow> exn + 'b list" where
  "py_map f [] = Inr []"
| "py_map f (x # xs) = ebind (f x) (\<lambda>v. ebind (py_map f xs) (\<lambda>vs. Inr (v # vs)))"

text \<open>Lines 72 to 74: the header check.\<close>

definition check_header :: "string list \<Rightarrow> exn + unit" where
  "check_header lines =
     ebind (getitem lines 0) (\<lambda>l0.
       let header = strip l0
       in if \<not> contains ''COFF'' header \<and> \<not> contains ''OFF'' header
          then Inl (ValueError ''Invalid OFF file header.'')
          else Inr ())"

text \<open>Lines 76 and 77: the counts line.\<close>

definition read_counts :: "string list \<Rightarrow> exn + int \<times> int" where
  "read_counts lines =
     ebind (getitem lines 1) (\<lambda>l1.
     ebind (py_map py_int (split (strip l1))) (\<lambda>counts.
     ebind (getitem counts 0) (\<lambda>num_vertices.
     ebind (getitem counts 1) (\<lambda>num_faces.
       Inr (num_vertices, num_faces)))))"

text \<open>Lines 79 to 81: the loop over \<^verbatim>\<open>range(num_vertices)\<close> that fills the position table.\<close>

fun read_vertices :: "rounding \<Rightarrow> string list \<Rightarrow> int list \<Rightarrow> vertex list \<Rightarrow> exn + vertex list" where
  "read_vertices fd lines [] vertex_positions = Inr vertex_positions"
| "read_vertices fd lines (i # is) vertex_positions =
     ebind (getitem lines (2 + i)) (\<lambda>l.
     ebind (py_map (py_float fd) (split (strip l))) (\<lambda>v.
       read_vertices fd lines is (vertex_positions @ [v])))"

text \<open>
  Lines 87 to 89: the progress report of iteration \<open>i\<close>. \<open>reported\<close> is the test on \<open>i\<close>,
  \<open>progress_entry\<close> the call made: the fraction and the message.
\<close>

definition reported :: "int \<Rightarrow> int \<Rightarrow> bool" where
  "reported num_faces i = (i mod 15000 = 0 \<or> i = num_faces - 1)"

definition progress_entry :: "rounding \<Rightarrow> int \<Rightarrow> int \<Rightarrow> progress_call" where
  "progress_entry fd num_faces i =
     (fd (real_of_int (i + 1) / real_of_int num_faces),
      ''Parsing faces: '' @ str_int (i + 1) @ ''/'' @ str_int num_faces)"

definition report_progress :: "rounding \<Rightarrow> bool \<Rightarrow> int \<Rightarrow> int \<Rightarrow> progress_call list \<Rightarrow> progress_call list" where
  "report_progress fd progress_callback num_faces i cs =
     (if progress_callback \<and> reported num_faces i then cs @ [progress_entry fd num_faces i] else cs)"

text \<open>
  Line 91: the pieces of face line \<open>i\<close>; \<^verbatim>\<open>int(parts[k])\<close> and \<^verbatim>\<open>float(parts[k])\<close>.
\<close>

definition face_record :: "string list \<Rightarrow> int \<Rightarrow> int \<Rightarrow> exn + string list" where
  "face_record lines num_vertices i =
     ebind (getitem lines (2 + num_vertices + i)) (\<lambda>l. Inr (split (strip l)))"

definition field_int :: "string list \<Rightarrow> int \<Rightarrow> exn + int" where
  "field_int parts k = ebind (getitem parts k) py_int"

definition field_float :: "rounding \<Rightarrow> string list \<Rightarrow> int \<Rightarrow> exn + pyfloat" where
  "field_float fd parts k = ebind (getitem parts k) (py_float fd)"

text \<open>
  Lines 92 to 98 on the pieces of one face line: \<open>None\<close> is \<^verbatim>\<open>continue\<close>, otherwise the three
  positions and the three colours the iteration appends.
\<close>

definition parse_face :: "rounding \<Rightarrow> vertex list \<Rightarrow> string list \<Rightarrow> exn + (vertex list \<times> vertex list) option" where
  "parse_face fd vertex_positions parts =
     ebind (field_int parts 0) (\<lambda>n.
       if n \<noteq> 3 then Inr None
       else
         ebind (field_int parts 1) (\<lambda>idx1.
         ebind (field_int parts 2) (\<lambda>idx2.
         ebind (field_int parts 3) (\<lambda>idx3.
         ebind (field_float fd parts 4) (\<lambda>r.
         ebind (field_float fd parts 5) (\<lambda>g.
         ebind (field_float fd parts 6) (\<lambda>b.
           let color = [fdiv fd r 255, fdiv fd g 255, fdiv fd b 255]
           in
             ebind (getitem vertex_positions idx1) (\<lambda>v1.
             ebind (getitem vertex_positions idx2) (\<lambda>v2.
             ebind (getitem vertex_positions idx3) (\<lambda>v3.
               Inr (Some ([v1, v2, v3], [color, color, color]))))))))))))"

text \<open>
  Lines 86 to 98: the loop over \<^verbatim>\<open>range(num_faces)\<close>. An exception ends it; the state it is
  returned with holds the calls already made.
\<close>

fun faces_loop ::
  "rounding \<Rightarrow> string list \<Rightarrow> int \<Rightarrow> int \<Rightarrow> vertex list \<Rightarrow> bool \<Rightarrow> int list \<Rightarrow> faces_state
     \<Rightarrow> exn option \<times> faces_state" where
  "faces_loop fd lines num_vertices num_faces vertex_positions progress_callback [] st = (None, st)"
| "faces_loop fd lines num_vertices num_faces vertex_positions progress_callback (i # is) st =
     (let st1 = st\<lparr>calls := report_progress fd progress_callback num_faces i (calls st)\<rparr>
      in case ebind (face_record lines num_vertices i) (parse_face fd vertex_positions) of
           Inl e \<Rightarrow> (Some e, st1)
         | Inr None \<Rightarrow>
             faces_loop fd lines num_vertices num_faces vertex_positions progress_callback is st1
         | Inr (Some (vs, cs)) \<Rightarrow>
             faces_loop fd lines num_vertices num_faces vertex_positions progress_callback is
               (st1\<lparr>final_vertices := final_vertices st1 @ vs,
                    final_colors := final_colors st1 @ cs\<rparr>))"

text \<open>
  \<^verbatim>\<open>np.array(rows, dtype=np.float32)\<close> on a list of lists of floats: rows of different
  lengths raise, otherwise every entry is converted. \<^verbatim>\<open>len\<close> of the array is the number of
  rows.
\<close>

definition np_array :: "rounding \<Rightarrow> vertex list \<Rightarrow> exn + vertex list" where
  "np_array ff rows =
     (if list_all (\<lambda>r. length r = length (hd rows)) rows
      then Inr (map (map (float32 ff)) rows)
      else Inl (ValueError ''inhomogeneous shape''))"

text \<open>Lines 69 to 104: the body of the \<^verbatim>\<open>try\<close>, with the calls made to the callback.\<close>

definition try_body ::
  "rounding \<Rightarrow> rounding \<Rightarrow> text_file \<Rightarrow> bool \<Rightarrow> (exn + vertex list \<times> vertex list) \<times> progress_call list" where
  "try_body fd ff f progress_callback =
     (case f of
        Unreadable e \<Rightarrow> (Inl e, [])
      | Lines lines \<Rightarrow>
          (case ebind (check_header lines) (\<lambda>_.
                ebind (read_counts lines) (\<lambda>(num_vertices, num_faces).
                ebind (read_vertices fd lines (py_range num_vertices) []) (\<lambda>vertex_positions.
                  Inr (num_vertices, num_faces, vertex_positions)))) of
             Inl e \<Rightarrow> (Inl e, [])
           | Inr (num_vertices, num_faces, vertex_positions) \<Rightarrow>
               (case faces_loop fd lines num_vertices num_faces vertex_positions progress_callback
                       (py_range num_faces)
                       \<lparr>final_vertices = [], final_colors = [], calls = []\<rparr> of
                  (Some e, st) \<Rightarrow> (Inl e, calls st)
                | (None, st) \<Rightarrow>
                    (ebind (np_array ff (final_vertices st)) (\<lambda>vertices_np.
                     ebind (np_array ff (final_colors st)) (\<lambda>colors_np.
                       Inr (vertices_np, colors_np))),
                     calls st))))"

text \<open>Lines 62 to 108: the function, its \<^verbatim>\<open>except Exception\<close> clause included.\<close>

definition load_custom_off :: "rounding \<Rightarrow> rounding \<Rightarrow> text_file \<Rightarrow> bool \<Rightarrow> load_result" where
  "load_custom_off fd ff f progress_callback =
     (case try_body fd ff f progress_callback of
        (Inr (vertices_np, colors_np), cs) \<Rightarrow>
          \<lparr>returned = Some (vertices_np, colors_np), callbacks = cs,
           printed = [Loading, Loaded (length vertices_np)]\<rparr>
      | (Inl e, cs) \<Rightarrow>
          \<lparr>returned = None, callbacks = cs, printed = [Loading, Failed e]\<rparr>)"

subsection \<open>Reading a face line\<close>

text \<open>
  A face line is triangular when its leading count reads as 3. What iteration \<open>i\<close> appends
  to the two output lists: nothing when the line is skipped.
\<close>

definition is_triangle :: "string list \<Rightarrow> int \<Rightarrow> int \<Rightarrow> bool" where
  "is_triangle lines num_vertices i =
     (ebind (face_record lines num_vertices i) (\<lambda>parts. field_int parts 0) = Inr 3)"

definition appended :: "rounding \<Rightarrow> string list \<Rightarrow> int \<Rightarrow> vertex list \<Rightarrow> int \<Rightarrow> vertex list \<times> vertex list" where
  "appended fd lines num_vertices vertex_positions i =
     (case ebind (face_record lines num_vertices i) (parse_face fd vertex_positions) of
        Inr (Some (vs, cs)) \<Rightarrow> (vs, cs)
      | _ \<Rightarrow> ([], []))"

text \<open>Iteration \<open>i\<close> raises when reading its line or one of its fields fails.\<close>

definition raises :: "rounding \<Rightarrow> string list \<Rightarrow> int \<Rightarrow> vertex list \<Rightarrow> int \<Rightarrow> bool" where
  "raises fd lines num_vertices vertex_positions i =
     isl (ebind (face_record lines num_vertices i) (parse_face fd vertex_positions))"

section \<open>The camera\<close>

text \<open>
  \<^verbatim>\<open>glm.vec3\<close> holds three 32-bit floats: every operation on vectors rounds each component
  with \<open>ff\<close>. Yaw, pitch, speed and sensitivity are Python floats, rounded with \<open>fd\<close>. A
  number that is not a number is outside the model.
\<close>

datatype vec3 = Vec3 (vx: real) (vy: real) (vz: real)

definition vadd :: "rounding \<Rightarrow> vec3 \<Rightarrow> vec3 \<Rightarrow> vec3" where
  "vadd ff a b = Vec3 (ff (vx a + vx b)) (ff (vy a + vy b)) (ff (vz a + vz b))"

definition vsub :: "rounding \<Rightarrow> vec3 \<Rightarrow> vec3 \<Rightarrow> vec3" where
  "vsub ff a b = Vec3 (ff (vx a - vx b)) (ff (vy a - vy b)) (ff (vz a - vz b))"

text \<open>\<^verbatim>\<open>v * s\<close> for a Python float \<open>s\<close>, which is converted to 32 bits first.\<close>

definition vscale :: "rounding \<Rightarrow> vec3 \<Rightarrow> real \<Rightarrow> vec3" where
  "vscale ff v s = Vec3 (ff (vx v * ff s)) (ff (vy v * ff s)) (ff (vz v * ff s))"

definition cross :: "rounding \<Rightarrow> vec3 \<Rightarrow> vec3 \<Rightarrow> vec3" where
  "cross ff a b =
     Vec3 (ff (ff (vy a * vz b) - ff (vy b * vz a)))
          (ff (ff (vz a * vx b) - ff (vz b * vx a)))
          (ff (ff (vx a * vy b) - ff (vx b * vy a)))"

definition dot :: "rounding \<Rightarrow> vec3 \<Rightarrow> vec3 \<Rightarrow> real" where
  "dot ff a b = ff (ff (ff (vx a * vx b) + ff (vy a * vy b)) + ff (vz a * vz b))"

text \<open>\<^verbatim>\<open>glm.normalize(v)\<close> is \<open>v\<close> times the inverse square root of \<open>dot v v\<close>.\<close>

definition normalize :: "rounding \<Rightarrow> vec3 \<Rightarrow> vec3" where
  "normalize ff v =
     (let s = ff (1 / ff (sqrt (dot ff v v)))
      in Vec3 (ff (vx v * s)) (ff (vy v * s)) (ff (vz v * s)))"

text \<open>\<^verbatim>\<open>glm.length(v)\<close>, the magnitude.\<close>

definition vlength :: "rounding \<Rightarrow> vec3 \<Rightarrow> real" where
  "vlength ff v = ff (sqrt (dot ff v v))"

text \<open>
  \<^verbatim>\<open>glm.radians\<close>, \<^verbatim>\<open>glm.cos\<close> and \<^verbatim>\<open>glm.sin\<close> of a Python float work on doubles:
  \<^verbatim>\<open>radians\<close> multiplies by the constant \<open>pi / 180\<close>, itself a double, and the cosine and
  the sine of a double are the rounded real cosine and sine.
\<close>

definition radians :: "rounding \<Rightarrow> real \<Rightarrow> real" where
  "radians fd deg = fd (deg * fd (pi / 180))"

record camera =
  position :: vec3
  yaw :: real
  pitch :: real
  speed :: real
  mouse_sensitivity :: real

datatype key = K_w | K_s | K_a | K_d | K_SPACE | K_LCTRL | K_LSHIFT

text \<open>Lines 112 to 117: the constructor, and the camera of its default arguments.\<close>

definition Camera :: "rounding \<Rightarrow> vec3 \<Rightarrow> real \<Rightarrow> camera" where
  "Camera fd pos spd =
     \<lparr>position = pos, yaw = - 90, pitch = 0, speed = spd, mouse_sensitivity = fd (1 / 10)\<rparr>"

definition default_camera :: "rounding \<Rightarrow> camera" where
  "default_camera fd = Camera fd (Vec3 0 2 20) 5"

text \<open>Lines 126 to 131.\<close>

definition get_forward_vector :: "rounding \<Rightarrow> rounding \<Rightarrow> camera \<Rightarrow> vec3" where
  "get_forward_vector fd ff cam =
     (let direction =
        Vec3 (ff (fd (fd (cos (radians fd (yaw cam))) * fd (cos (radians fd (pitch cam))))))
             (ff (fd (sin (radians fd (pitch cam)))))
             (ff (fd (fd (sin (radians fd (yaw cam))) * fd (cos (radians fd (pitch cam))))))
      in normalize ff direction)"

text \<open>
  Lines 133 to 150. \<open>keys\<close> tells which keys are down, \<open>mouse_rel\<close> is the pointer motion
  and \<open>delta_time\<close> the elapsed time.
\<close>

definition process_input ::
  "rounding \<Rightarrow> rounding \<Rightarrow> camera \<Rightarrow> (key \<Rightarrow> bool) \<Rightarrow> real \<times> real \<Rightarrow> real \<Rightarrow> camera" where
  "process_input fd ff cam keys mouse_rel delta_time =
     (let x_offset = fst mouse_rel;
          y_offset = snd mouse_rel;
          cam1 = cam\<lparr>yaw := fd (yaw cam + fd (x_offset * mouse_sensitivity cam))\<rparr>;
          cam2 = cam1\<lparr>pitch := fd (pitch cam1 - fd (y_offset * mouse_sensitivity cam1))\<rparr>;
          cam3 = cam2\<lparr>pitch := max (- 89) (min 89 (pitch cam2))\<rparr>;
          velocity = fd (speed cam3 * delta_time);
          forward = get_forward_vector fd ff cam3;
          world_up = Vec3 0 1 0;
          right = normalize ff (cross ff forward world_up);
          up = world_up;
          p1 = (if keys K_w then vadd ff (position cam3) (vscale ff forward velocity) else position cam3);
          p2 = (if keys K_s then vsub ff p1 (vscale ff forward velocity) else p1);
          p3 = (if keys K_a then vsub ff p2 (vscale ff right velocity) else p2);
          p4 = (if keys K_d then vadd ff p3 (vscale ff right velocity) else p3);
          p5 = (if keys K_SPACE then vadd ff p4 (vscale ff up velocity) else p4);
          p6 = (if keys K_LCTRL \<or> keys K_LSHIFT then vsub ff p5 (vscale ff up velocity) else p5)
      in cam3\<lparr>position := p6\<rparr>)"

text \<open>The main loop calls \<^verbatim>\<open>process_input\<close> once per frame: a run is a list of frames.\<close>

fun run_frames ::
  "rounding \<Rightarrow> rounding \<Rightarrow> camera \<Rightarrow> ((key \<Rightarrow> bool) \<times> (real \<times> real) \<times> real) list \<Rightarrow> camera" where
  "run_frames fd ff cam [] = cam"
| "run_frames fd ff cam ((keys, mouse_rel, delta_time) # frames) =
     run_frames fd ff (process_input fd ff cam keys mouse_rel delta_time) frames"

subsection \<open>Reading a frame\<close>

text \<open>
  The vector by which a movement key translates the position in a frame, as lines 139 to
  143 compute it: the forward, right or up vector of the turned camera times the velocity.
  A vector is representable when rounding keeps its components.
\<close>

definition translation :: "rounding \<Rightarrow> rounding \<Rightarrow> camera \<Rightarrow> real \<times> real \<Rightarrow> real \<Rightarrow> key \<Rightarrow> vec3" where
  "translation fd ff cam mouse_rel delta_time k =
     (let turned = process_input fd ff cam (\<lambda>k. False) mouse_rel delta_time;
          velocity = fd (speed turned * delta_time);
          forward = get_forward_vector fd ff turned;
          world_up = Vec3 0 1 0;
          right = normalize ff (cross ff forward world_up)
      in vscale ff
           (if k = K_w \<or> k = K_s then forward else if k = K_a \<or> k = K_d then right else world_up)
           velocity)"

definition representable :: "rounding \<Rightarrow> vec3 \<Rightarrow> bool" where
  "representable ff v = (ff (vx v) = vx v \<and> ff (vy v) = vy v \<and> ff (vz v) = vz v)"

subsection \<open>The accuracy of a rounding\<close>

text \<open>
  A rounding is accurate to \<open>u\<close> and \<open>\<eta>\<close> when it moves a number \<open>x\<close> of magnitude up to 4 by
  at most \<open>u * \<bar>x\<bar> + \<eta>\<close>. Rounding to nearest in the 32-bit format is accurate to \<open>2 ^ - 24\<close>
  and \<open>2 ^ - 150\<close>, half the smallest subnormal number; in the double format to \<open>2 ^ - 53\<close> and
  \<open>2 ^ - 1075\<close>. No number of magnitude up to 4 overflows. \<open>magnitude\<close> is the length of a
  vector as a real number, where \<open>vlength\<close> is the length that \<^verbatim>\<open>glm.length\<close> computes.
\<close>

definition accurate :: "real \<Rightarrow> real \<Rightarrow> rounding \<Rightarrow> bool" where
  "accurate u \<eta> f = (\<forall>x. \<bar>x\<bar> \<le> 4 \<longrightarrow> \<bar>f x - x\<bar> \<le> u * \<bar>x\<bar> + \<eta>)"

definition magnitude :: "vec3 \<Rightarrow> real" where
  "magnitude v = sqrt (vx v * vx v + vy v * vy v + vz v * vz v)"

subsection \<open>Rounding to a binary format\<close>

text \<open>
  Rounding to the nearest number with \<open>p\<close> significant bits, ties to the even significand,
  on an unbounded exponent range: \<open>p = 24\<close> is the 32-bit format and \<open>p = 53\<close> the double, away
  from overflow and underflow.
\<close>

definition round_half_even :: "real \<Rightarrow> int" where
  "round_half_even q =
     (let n = \<lfloor>q\<rfloor>; d = q - of_int n
      in if d < 1 / 2 then n else if 1 / 2 < d then n + 1 else if even n then n else n + 1)"

definition round_to :: "nat \<Rightarrow> real \<Rightarrow> real" where
  "round_to p x =
     (if x = 0 then 0
      else let e = \<lfloor>log 2 \<bar>x\<bar>\<rfloor> - int p + 1
           in of_int (round_half_even (x / 2 powr e)) * 2 powr e)"

section \<open>Example inputs\<close>

text \<open>
  Exact arithmetic, and two files in the format of the loader: four vertices, then two
  triangles with a quadrilateral between them. In the second file the last triangle names
  its corners in another order and has another colour. A third file announces three faces
  and has no vertices: its first face line is skipped and its second does not read.
\<close>

abbreviation (input) exact :: rounding where
  "exact \<equiv> (\<lambda>x. x)"

abbreviation (input) red_mesh :: "string list" where
  "red_mesh \<equiv>
     [''OFF\<newline>'', ''4 3\<newline>'',
      ''0 0 0\<newline>'', ''1 0 0\<newline>'', ''0 1 0\<newline>'', ''0 0 1\<newline>'',
      ''3 0 1 2 255 0 0\<newline>'', ''4 0 1 2 3 0 255 0\<newline>'', ''3 0 1 2 255 0 0\<newline>'']"

abbreviation (input) two_colour_mesh :: "string list" where
  "two_colour_mesh \<equiv>
     [''OFF\<newline>'', ''4 3\<newline>'',
      ''0 0 0\<newline>'', ''1 0 0\<newline>'', ''0 1 0\<newline>'', ''0 0 1\<newline>'',
      ''3 0 1 2 255 0 0\<newline>'', ''4 0 1 2 3 0 255 0\<newline>'', ''3 2 1 0 0 255 51\<newline>'']"

abbreviation (input) four_vertices :: "vertex list" where
  "four_vertices \<equiv>
     [[Fin 0, Fin 0, Fin 0], [Fin 1, Fin 0, Fin 0], [Fin 0, Fin 1, Fin 0], [Fin 0, Fin 0, Fin 1]]"

abbreviation (input) broken_mesh :: "string list" where
  "broken_mesh \<equiv>
     [''OFF\<newline>'', ''0 3\<newline>'', ''4 0 0 0 0\<newline>'', ''x\<newline>'', ''3 0 0 0 255 0 0\<newline>'']"

section \<open>Basic facts\<close>

lemma ebind_Inl [simp]: "ebind (Inl e) f = Inl e"
  by (simp add: ebind_def)

lemma ebind_Inr [simp]: "ebind (Inr v) f = f v"
  by (simp add: ebind_def)

lemma ebind_eq_Inr: "ebind m f = Inr y \<longleftrightarrow> (\<exists>v. m = Inr v \<and> f v = Inr y)"
  by (cases m) simp_all

lemma ebind_eq_Inl: "ebind m f = Inl e \<longleftrightarrow> m = Inl e \<or> (\<exists>v. m = Inr v \<and> f v = Inl e)"
  by (cases m) simp_all

lemma getitem_nonneg: "0 \<le> i \<Longrightarrow> getitem xs i = (if i < int (length xs) then Inr (xs ! nat i) else Inl IndexError)"
  by (simp add: getitem_def)

lemma getitem_Inr_range: "getitem xs i = Inr v \<Longrightarrow> - int (length xs) \<le> i \<and> i < int (length xs)"
  by (auto simp: getitem_def split: if_splits)

lemma getitem_Inl: "getitem xs i = Inl e \<Longrightarrow> e = IndexError"
  by (auto simp: getitem_def split: if_splits)

lemma getitem_0: "getitem xs 0 = (case xs of [] \<Rightarrow> Inl IndexError | x # _ \<Rightarrow> Inr x)"
  by (cases xs) (simp_all add: getitem_def)

lemma getitem_1: "getitem (x # xs) 1 = (case xs of [] \<Rightarrow> Inl IndexError | y # _ \<Rightarrow> Inr y)"
  by (cases xs) (simp_all add: getitem_def)

lemma contains_iff: "contains sub s \<longleftrightarrow> (\<exists>p q. s = p @ sub @ q)"
proof (induction s)
  case Nil
  then show ?case by auto
next
  case (Cons c cs)
  show ?case
  proof
    assume "contains sub (c # cs)"
    then consider "prefix sub (c # cs)" | "contains sub cs" by auto
    then show "\<exists>p q. c # cs = p @ sub @ q"
    proof cases
      case 1
      then obtain q where "c # cs = sub @ q" by (auto simp: prefix_def)
      then have "c # cs = [] @ sub @ q" by simp
      then show ?thesis by blast
    next
      case 2
      with Cons.IH obtain p q where "cs = p @ sub @ q" by blast
      then have "c # cs = (c # p) @ sub @ q" by simp
      then show ?thesis by blast
    qed
  next
    assume "\<exists>p q. c # cs = p @ sub @ q"
    then obtain p q where pq: "c # cs = p @ sub @ q" by blast
    show "contains sub (c # cs)"
    proof (cases p)
      case Nil
      with pq have "prefix sub (c # cs)" by (simp add: prefix_def)
      then show ?thesis by simp
    next
      case (Cons a p')
      with pq have "cs = p' @ sub @ q" by simp
      with Cons.IH have "contains sub cs" by blast
      then show ?thesis by simp
    qed
  qed
qed

lemma contains_COFF_OFF: "contains ''COFF'' s \<Longrightarrow> contains ''OFF'' s"
proof -
  assume "contains ''COFF'' s"
  then obtain p q where "s = p @ ''COFF'' @ q" unfolding contains_iff by blast
  then have "s = (p @ ''C'') @ ''OFF'' @ q" by simp
  then show ?thesis unfolding contains_iff by blast
qed

lemma check_header_eq:
  "check_header lines =
     (case lines of [] \<Rightarrow> Inl IndexError
      | l0 # _ \<Rightarrow> if contains ''OFF'' (strip l0) then Inr ()
                  else Inl (ValueError ''Invalid OFF file header.''))"
  using contains_COFF_OFF by (cases lines) (auto simp: check_header_def getitem_0 Let_def)

lemma load_header_fails:
  "check_header lines = Inl e \<Longrightarrow>
     load_custom_off fd ff (Lines lines) cb = \<lparr>returned = None, callbacks = [], printed = [Loading, Failed e]\<rparr>"
  by (simp add: load_custom_off_def try_body_def)

lemma py_map_Inr: "py_map f xs = Inr ys \<longleftrightarrow> list_all2 (\<lambda>x y. f x = Inr y) xs ys"
proof (induction xs arbitrary: ys)
  case Nil
  then show ?case by auto
next
  case (Cons x xs)
  then show ?case by (cases ys) (auto simp: ebind_eq_Inr)
qed

lemma py_map_length: "py_map f xs = Inr ys \<Longrightarrow> length ys = length xs"
  by (simp add: py_map_Inr list_all2_lengthD)

lemma py_map_fails: "x \<in> set xs \<Longrightarrow> f x = Inl e \<Longrightarrow> \<exists>e'. py_map f xs = Inl e'"
proof (induction xs)
  case Nil
  then show ?case by simp
next
  case (Cons a xs)
  show ?case
  proof (cases "f a")
    case (Inl e1)
    then show ?thesis by simp
  next
    case (Inr v)
    show ?thesis
    proof (cases "x = a")
      case True
      with Cons.prems Inr show ?thesis by simp
    next
      case False
      with Cons obtain e' where "py_map f xs = Inl e'" by auto
      with Inr show ?thesis by simp
    qed
  qed
qed

lemma try_body_Lines:
  "try_body fd ff (Lines lines) cb =
     (case check_header lines of
        Inl e \<Rightarrow> (Inl e, [])
      | Inr _ \<Rightarrow>
          (case read_counts lines of
             Inl e \<Rightarrow> (Inl e, [])
           | Inr (num_vertices, num_faces) \<Rightarrow>
               (case read_vertices fd lines (py_range num_vertices) [] of
                  Inl e \<Rightarrow> (Inl e, [])
                | Inr vertex_positions \<Rightarrow>
                    (case faces_loop fd lines num_vertices num_faces vertex_positions cb
                            (py_range num_faces)
                            \<lparr>final_vertices = [], final_colors = [], calls = []\<rparr> of
                       (Some e, st) \<Rightarrow> (Inl e, calls st)
                     | (None, st) \<Rightarrow>
                         (ebind (np_array ff (final_vertices st)) (\<lambda>vertices_np.
                          ebind (np_array ff (final_colors st)) (\<lambda>colors_np.
                            Inr (vertices_np, colors_np))),
                          calls st)))))"
proof (cases "check_header lines")
  case (Inl e)
  then show ?thesis by (simp add: try_body_def)
next
  case h: (Inr u)
  show ?thesis
  proof (cases "read_counts lines")
    case (Inl e)
    with h show ?thesis by (simp add: try_body_def)
  next
    case c: (Inr vf)
    obtain V F where vf: "vf = (V, F)" by (cases vf)
    show ?thesis
    proof (cases "read_vertices fd lines (py_range V) []")
      case (Inl e)
      with h c vf show ?thesis by (simp add: try_body_def)
    next
      case (Inr vp)
      with h c vf show ?thesis by (simp add: try_body_def)
    qed
  qed
qed

lemma load_eq:
  "load_custom_off fd ff f cb =
     (case fst (try_body fd ff f cb) of
        Inl e \<Rightarrow> \<lparr>returned = None, callbacks = snd (try_body fd ff f cb), printed = [Loading, Failed e]\<rparr>
      | Inr m \<Rightarrow> \<lparr>returned = Some m, callbacks = snd (try_body fd ff f cb),
                  printed = [Loading, Loaded (length (fst m))]\<rparr>)"
proof (cases "try_body fd ff f cb")
  case (Pair r cs)
  then show ?thesis by (cases r) (auto simp: load_custom_off_def)
qed

lemma load_counts_fail:
  "read_counts lines = Inl e \<Longrightarrow> returned (load_custom_off fd ff (Lines lines) cb) = None"
  by (cases "check_header lines") (simp_all add: load_eq try_body_Lines)

lemma read_counts_eq:
  "getitem lines 1 = Inr l1 \<Longrightarrow>
     read_counts lines =
       (case py_map py_int (split (strip l1)) of
          Inl e \<Rightarrow> Inl e
        | Inr counts \<Rightarrow>
            (case counts of
               [] \<Rightarrow> Inl IndexError
             | [v] \<Rightarrow> Inl IndexError
             | v # f # _ \<Rightarrow> Inr (v, f)))"
  by (simp add: read_counts_def getitem_0 getitem_1 split: sum.splits list.splits)

subsection \<open>Evaluating the loader on a concrete file\<close>

lemma py_range_0 [simp]: "py_range 0 = []"
  by (simp add: py_range_def)

lemma py_range_step: "0 < n \<Longrightarrow> py_range n = py_range (n - 1) @ [n - 1]"
proof -
  assume "0 < n"
  then have "nat n = Suc (nat (n - 1))" by simp
  then have "[0..<nat n] = [0..<nat (n - 1)] @ [nat (n - 1)]" by simp
  with \<open>0 < n\<close> show ?thesis by (simp add: py_range_def)
qed

lemma py_range_1: "py_range 1 = [0]"
  by (simp add: py_range_step)

lemma py_range_numeral: "py_range (numeral k) = py_range (numeral k - 1) @ [numeral k - 1]"
  by (rule py_range_step) simp

lemma char_of_digits:
  "char_of (48::nat) = CHR ''0''"
  "char_of (49::nat) = CHR ''1''"
  "char_of (50::nat) = CHR ''2''"
  "char_of (51::nat) = CHR ''3''"
  "char_of (52::nat) = CHR ''4''"
  "char_of (53::nat) = CHR ''5''"
  "char_of (54::nat) = CHR ''6''"
  "char_of (55::nat) = CHR ''7''"
  "char_of (56::nat) = CHR ''8''"
  "char_of (57::nat) = CHR ''9''"
  by (simp_all add: char_of_def bit_simps)

lemmas py_eval =
  load_custom_off_def try_body_def check_header_def read_counts_def strip_def isspace_def
  getitem_def split_def py_int_def py_digits_def isdigit_def digits_val_def digit_val_def
  py_range_1 py_range_numeral np_array_def py_float_def float_unsigned_def float_decimal_def float_exponent_def
  lower_def parse_face_def face_record_def field_int_def field_float_def report_progress_def reported_def progress_entry_def fdiv_def float32_def str_int_def char_of_digits Let_def

section \<open>The two loops\<close>

text \<open>
  What one iteration of the face loop does with its line, and what the loop has done when
  it ends: without an exception it has appended the rows of every iteration, in order; in
  any case the calls made are those of the iterations started.
\<close>

lemma parse_face_skip:
  "parse_face fd vp parts = Inr None \<longleftrightarrow> (\<exists>n. field_int parts 0 = Inr n \<and> n \<noteq> 3)"
  by (auto simp: parse_face_def ebind_eq_Inr Let_def)

lemma parse_face_Some:
  "parse_face fd vp parts = Inr (Some (vs, cs)) \<longleftrightarrow>
     field_int parts 0 = Inr 3 \<and>
     (\<exists>idx1 idx2 idx3 r g b v1 v2 v3.
        field_int parts 1 = Inr idx1 \<and> field_int parts 2 = Inr idx2 \<and> field_int parts 3 = Inr idx3 \<and>
        field_float fd parts 4 = Inr r \<and> field_float fd parts 5 = Inr g \<and> field_float fd parts 6 = Inr b \<and>
        getitem vp idx1 = Inr v1 \<and> getitem vp idx2 = Inr v2 \<and> getitem vp idx3 = Inr v3 \<and>
        vs = [v1, v2, v3] \<and>
        cs = [[fdiv fd r 255, fdiv fd g 255, fdiv fd b 255],
              [fdiv fd r 255, fdiv fd g 255, fdiv fd b 255],
              [fdiv fd r 255, fdiv fd g 255, fdiv fd b 255]])"
  by (auto simp: parse_face_def ebind_eq_Inr Let_def)


lemma faces_loop_ok:
  assumes "faces_loop fd lines V F vp cb is st = (None, st')"
  shows "(\<forall>i \<in> set is. \<exists>r. ebind (face_record lines V i) (parse_face fd vp) = Inr r) \<and>
         final_vertices st' = final_vertices st @ concat (map (\<lambda>i. fst (appended fd lines V vp i)) is) \<and>
         final_colors st' = final_colors st @ concat (map (\<lambda>i. snd (appended fd lines V vp i)) is)"
  using assms
proof (induction "is" arbitrary: st)
  case Nil
  then show ?case by simp
next
  case (Cons i "is")
  let ?st1 = "st\<lparr>calls := report_progress fd cb F i (calls st)\<rparr>"
  show ?case
  proof (cases "ebind (face_record lines V i) (parse_face fd vp)")
    case (Inl e)
    with Cons.prems show ?thesis by (simp add: Let_def)
  next
    case (Inr r)
    show ?thesis
    proof (cases r)
      case None
      with Inr Cons.prems have "faces_loop fd lines V F vp cb is ?st1 = (None, st')"
        by (simp add: Let_def)
      from Cons.IH[OF this] Inr None show ?thesis by (simp add: appended_def)
    next
      case (Some p)
      obtain vs cs where p: "p = (vs, cs)" by (cases p)
      let ?st2 = "?st1\<lparr>final_vertices := final_vertices ?st1 @ vs, final_colors := final_colors ?st1 @ cs\<rparr>"
      from Inr Some p Cons.prems have "faces_loop fd lines V F vp cb is ?st2 = (None, st')"
        by (simp add: Let_def)
      from Cons.IH[OF this] Inr Some p show ?thesis by (simp add: appended_def)
    qed
  qed
qed

lemma foldl_report:
  "foldl (\<lambda>cs i. report_progress fd cb F i cs) cs0 is =
     cs0 @ (if cb then map (progress_entry fd F) (filter (reported F) is) else [])"
  by (induction "is" arbitrary: cs0) (auto simp: report_progress_def)

lemma faces_loop_calls:
  "\<exists>n \<le> length is.
     calls (snd (faces_loop fd lines V F vp cb is st)) =
       foldl (\<lambda>cs i. report_progress fd cb F i cs) (calls st) (take n is) \<and>
     (fst (faces_loop fd lines V F vp cb is st) = None \<longrightarrow> n = length is)"
proof (induction "is" arbitrary: st)
  case Nil
  then show ?case by simp
next
  case (Cons i "is")
  let ?st1 = "st\<lparr>calls := report_progress fd cb F i (calls st)\<rparr>"
  show ?case
  proof (cases "ebind (face_record lines V i) (parse_face fd vp)")
    case (Inl e)
    then have eq: "faces_loop fd lines V F vp cb (i # is) st = (Some e, ?st1)"
      by (simp add: Let_def)
    show ?thesis unfolding eq by (intro exI[of _ 1]) simp
  next
    case (Inr r)
    show ?thesis
    proof (cases r)
      case None
      with Inr have eq: "faces_loop fd lines V F vp cb (i # is) st = faces_loop fd lines V F vp cb is ?st1"
        by (simp add: Let_def)
      from Cons.IH[of ?st1] obtain n where n: "n \<le> length is \<and>
        calls (snd (faces_loop fd lines V F vp cb is ?st1)) =
           foldl (\<lambda>cs i. report_progress fd cb F i cs) (calls ?st1) (take n is) \<and>
        (fst (faces_loop fd lines V F vp cb is ?st1) = None \<longrightarrow> n = length is)" ..
      show ?thesis unfolding eq
      proof (intro exI[of _ "Suc n"] conjI)
        show "Suc n \<le> length (i # is)" using n by simp
        show "calls (snd (faces_loop fd lines V F vp cb is ?st1)) =
           foldl (\<lambda>cs i. report_progress fd cb F i cs) (calls st) (take (Suc n) (i # is))"
          using n by simp
        show "fst (faces_loop fd lines V F vp cb is ?st1) = None \<longrightarrow> Suc n = length (i # is)"
          using n by simp
      qed
    next
      case (Some p)
      obtain vs cs where p: "p = (vs, cs)" by (cases p)
      let ?st2 = "?st1\<lparr>final_vertices := final_vertices ?st1 @ vs, final_colors := final_colors ?st1 @ cs\<rparr>"
      from Inr Some p have eq: "faces_loop fd lines V F vp cb (i # is) st = faces_loop fd lines V F vp cb is ?st2"
        by (simp add: Let_def)
      from Cons.IH[of ?st2] obtain n where n: "n \<le> length is \<and>
        calls (snd (faces_loop fd lines V F vp cb is ?st2)) =
           foldl (\<lambda>cs i. report_progress fd cb F i cs) (calls ?st2) (take n is) \<and>
        (fst (faces_loop fd lines V F vp cb is ?st2) = None \<longrightarrow> n = length is)" ..
      show ?thesis unfolding eq
      proof (intro exI[of _ "Suc n"] conjI)
        show "Suc n \<le> length (i # is)" using n by simp
        show "calls (snd (faces_loop fd lines V F vp cb is ?st2)) =
           foldl (\<lambda>cs i. report_progress fd cb F i cs) (calls st) (take (Suc n) (i # is))"
          using n by simp
        show "fst (faces_loop fd lines V F vp cb is ?st2) = None \<longrightarrow> Suc n = length (i # is)"
          using n by simp
      qed
    qed
  qed
qed

lemma read_vertices_length:
  "read_vertices fd lines is vp0 = Inr vp \<Longrightarrow> length vp = length vp0 + length is"
proof (induction "is" arbitrary: vp0)
  case Nil
  then show ?case by simp
next
  case (Cons i "is")
  from Cons.prems obtain l v where "read_vertices fd lines is (vp0 @ [v]) = Inr vp"
    by (auto simp: ebind_eq_Inr)
  from Cons.IH[OF this] show ?case by simp
qed

lemma np_array_Inr: "np_array ff rows = Inr a \<Longrightarrow> a = map (map (float32 ff)) rows"
  by (auto simp: np_array_def split: if_splits)

lemma take_py_range: "n \<le> nat F \<Longrightarrow> take n (py_range F) = py_range (int n)"
  by (simp add: py_range_def take_map)

lemma length_py_range [simp]: "length (py_range F) = nat F"
  by (simp add: py_range_def)

lemma set_py_range: "i \<in> set (py_range F) \<longleftrightarrow> 0 \<le> i \<and> i < F"
proof
  assume "i \<in> set (py_range F)"
  then show "0 \<le> i \<and> i < F" by (auto simp: py_range_def)
next
  assume a: "0 \<le> i \<and> i < F"
  then have "nat i \<in> set [0..<nat F]" by auto
  then have "int (nat i) \<in> set (py_range F)" unfolding py_range_def by (metis imageI set_map)
  with a show "i \<in> set (py_range F)" by simp
qed


subsection \<open>A parse that returns a mesh\<close>

text \<open>When the loader returns a mesh, every stage of the body has returned.\<close>

lemma load_success:
  assumes "returned (load_custom_off fd ff (Lines lines) cb) = Some (positions, colors)"
  shows "\<exists>V F vp st.
           check_header lines = Inr () \<and>
           read_counts lines = Inr (V, F) \<and>
           read_vertices fd lines (py_range V) [] = Inr vp \<and>
           faces_loop fd lines V F vp cb (py_range F)
             \<lparr>final_vertices = [], final_colors = [], calls = []\<rparr> = (None, st) \<and>
           np_array ff (final_vertices st) = Inr positions \<and>
           np_array ff (final_colors st) = Inr colors"
proof -
  from assms have body: "fst (try_body fd ff (Lines lines) cb) = Inr (positions, colors)"
    by (cases "fst (try_body fd ff (Lines lines) cb)") (simp_all add: load_eq)
  show ?thesis
  proof (cases "check_header lines")
    case (Inl e)
    with body show ?thesis by (simp add: try_body_Lines)
  next
    case h: (Inr u)
    show ?thesis
    proof (cases "read_counts lines")
      case (Inl e)
      with body h show ?thesis by (simp add: try_body_Lines)
    next
      case c: (Inr vf)
      obtain V F where vf: "vf = (V, F)" by (cases vf)
      show ?thesis
      proof (cases "read_vertices fd lines (py_range V) []")
        case (Inl e)
        with body h c vf show ?thesis by (simp add: try_body_Lines)
      next
        case v: (Inr vp)
        obtain r st where l: "faces_loop fd lines V F vp cb (py_range F)
             \<lparr>final_vertices = [], final_colors = [], calls = []\<rparr> = (r, st)"
          by (cases "faces_loop fd lines V F vp cb (py_range F)
             \<lparr>final_vertices = [], final_colors = [], calls = []\<rparr>")
        show ?thesis
        proof (cases r)
          case (Some e)
          with body h c vf v l show ?thesis by (simp add: try_body_Lines)
        next
          case None
          with body h c vf v l have
            "ebind (np_array ff (final_vertices st)) (\<lambda>vertices_np.
               ebind (np_array ff (final_colors st)) (\<lambda>colors_np. Inr (vertices_np, colors_np)))
             = Inr (positions, colors)"
            by (simp add: try_body_Lines)
          then have "np_array ff (final_vertices st) = Inr positions"
            "np_array ff (final_colors st) = Inr colors"
            by (auto simp: ebind_eq_Inr)
          with h c vf v l None show ?thesis by simp
        qed
      qed
    qed
  qed
qed

lemma face_step_ok:
  assumes "ebind (face_record lines V i) (parse_face fd vp) = Inr r"
  shows "(is_triangle lines V i \<longrightarrow> (\<exists>vs cs. r = Some (vs, cs) \<and> length vs = 3 \<and> length cs = 3)) \<and>
         (\<not> is_triangle lines V i \<longrightarrow> r = None)"
proof -
  from assms obtain parts where parts: "face_record lines V i = Inr parts"
    "parse_face fd vp parts = Inr r"
    by (auto simp: ebind_eq_Inr)
  show ?thesis
  proof (cases r)
    case None
    with parts have "\<exists>n. field_int parts 0 = Inr n \<and> n \<noteq> 3" by (simp add: parse_face_skip)
    with parts have "\<not> is_triangle lines V i" by (auto simp: is_triangle_def)
    with None show ?thesis by simp
  next
    case (Some p)
    obtain vs cs where p: "p = (vs, cs)" by (cases p)
    from parts Some p have ps: "parse_face fd vp parts = Inr (Some (vs, cs))" by simp
    then have "field_int parts 0 = Inr 3" "length vs = 3" "length cs = 3"
      unfolding parse_face_Some by auto
    with parts have "is_triangle lines V i" "length vs = 3" "length cs = 3"
      by (auto simp: is_triangle_def)
    with Some p show ?thesis by simp
  qed
qed

lemma appended_length:
  assumes "ebind (face_record lines V i) (parse_face fd vp) = Inr r"
  shows "length (fst (appended fd lines V vp i)) = (if is_triangle lines V i then 3 else 0) \<and>
         length (snd (appended fd lines V vp i)) = (if is_triangle lines V i then 3 else 0)"
proof (cases "is_triangle lines V i")
  case True
  with face_step_ok[OF assms] obtain vs cs where "r = Some (vs, cs)" "length vs = 3" "length cs = 3"
    by auto
  with assms True show ?thesis by (simp add: appended_def)
next
  case False
  with face_step_ok[OF assms] have "r = None" by simp
  with assms False show ?thesis by (simp add: appended_def)
qed

lemma length_concat_filter:
  "(\<forall>i \<in> set is. length (f i) = (if P i then 3 else 0)) \<Longrightarrow>
     length (concat (map f is)) = 3 * length (filter P is)"
  by (induction "is") auto

subsection \<open>The calls of the callback\<close>

lemma rounds_unit: "rounds f \<Longrightarrow> 0 \<le> x \<Longrightarrow> x \<le> 1 \<Longrightarrow> 0 \<le> f x \<and> f x \<le> 1"
proof -
  assume r: "rounds f" and x: "0 \<le> x" "x \<le> 1"
  from r have m: "mono f" by (simp add: rounds_def)
  from r have i: "\<bar>n\<bar> \<le> 2 ^ 24 \<Longrightarrow> f (real_of_int n) = real_of_int n" for n
    by (simp add: rounds_def)
  from i[of 0] i[of 1] have "f 0 = 0" "f 1 = 1" by simp_all
  with monoD[OF m x(1)] monoD[OF m x(2)] show ?thesis by simp
qed

lemma progress_fraction:
  assumes "rounds fd" "0 \<le> i" "i < F"
  shows "0 \<le> fst (progress_entry fd F i) \<and> fst (progress_entry fd F i) \<le> 1"
proof -
  from assms have "0 \<le> real_of_int (i + 1) / real_of_int F" "real_of_int (i + 1) / real_of_int F \<le> 1"
    by simp_all
  from rounds_unit[OF assms(1) this] show ?thesis by (simp add: progress_entry_def)
qed

lemma callbacks_eq: "callbacks (load_custom_off fd ff f cb) = snd (try_body fd ff f cb)"
  by (cases "fst (try_body fd ff f cb)") (simp_all add: load_eq)

lemma returned_eq:
  "returned (load_custom_off fd ff f cb) = (case fst (try_body fd ff f cb) of Inl e \<Rightarrow> None | Inr m \<Rightarrow> Some m)"
  by (cases "fst (try_body fd ff f cb)") (simp_all add: load_eq)

lemma try_body_calls:
  assumes "read_counts lines = Inr (V, F)"
  shows "\<exists>n \<le> nat F.
           snd (try_body fd ff (Lines lines) cb) =
             (if cb then map (progress_entry fd F) (filter (reported F) (py_range (int n))) else []) \<and>
           ((\<exists>m. fst (try_body fd ff (Lines lines) cb) = Inr m) \<longrightarrow> n = nat F)"
proof (cases "check_header lines")
  case (Inl e)
  then have "try_body fd ff (Lines lines) cb = (Inl e, [])" by (simp add: try_body_Lines)
  then show ?thesis by (intro exI[of _ 0]) simp
next
  case h: (Inr u)
  show ?thesis
  proof (cases "read_vertices fd lines (py_range V) []")
    case (Inl e)
    with h assms have "try_body fd ff (Lines lines) cb = (Inl e, [])" by (simp add: try_body_Lines)
    then show ?thesis by (intro exI[of _ 0]) simp
  next
    case (Inr vp)
    let ?st0 = "\<lparr>final_vertices = [], final_colors = [], calls = []\<rparr>"
    let ?loop = "faces_loop fd lines V F vp cb (py_range F) ?st0"
    from faces_loop_calls[of "py_range F" fd lines V F vp cb ?st0]
    obtain n where n: "n \<le> length (py_range F) \<and>
        calls (snd ?loop) = foldl (\<lambda>cs i. report_progress fd cb F i cs) (calls ?st0) (take n (py_range F)) \<and>
        (fst ?loop = None \<longrightarrow> n = length (py_range F))" ..
    then have nF: "n \<le> nat F" by simp
    from n nF have c: "calls (snd ?loop) =
        (if cb then map (progress_entry fd F) (filter (reported F) (py_range (int n))) else [])"
      by (simp add: foldl_report take_py_range)
    obtain r st where l: "?loop = (r, st)" by (cases ?loop)
    show ?thesis
    proof (cases r)
      case None
      with h assms Inr l have
        "snd (try_body fd ff (Lines lines) cb) = calls st" by (simp add: try_body_Lines)
      moreover from n l None have "n = nat F" by simp
      ultimately show ?thesis using c l nF by (intro exI[of _ n]) simp
    next
      case (Some e)
      with h assms Inr l have
        "try_body fd ff (Lines lines) cb = (Inl e, calls st)" by (simp add: try_body_Lines)
      then show ?thesis using c l nF by (intro exI[of _ n]) simp
    qed
  qed
qed

subsection \<open>A token that reads as an integer reads as that float\<close>

lemma drop_underscores_prev:
  "p \<noteq> CHR ''_'' \<Longrightarrow> \<not> isdigit p \<Longrightarrow> drop_underscores (Some p) cs = drop_underscores None cs"
  by (cases cs) simp_all

lemma lower_digit: "isdigit c \<Longrightarrow> lower c = c"
  by (simp add: lower_def isdigit_def)

lemma float_decimal_digits:
  assumes "ds \<noteq> []" "list_all isdigit ds"
  shows "float_decimal ds = Some (real (digits_val ds))"
proof -
  from assms(2) have tw: "takeWhile isdigit ds = ds" and dw: "dropWhile isdigit ds = []"
    by (simp_all add: list_all_iff)
  show ?thesis unfolding float_decimal_def tw dw
    using assms(1) by (simp add: float_exponent_def)
qed

lemma float_unsigned_digits:
  assumes "ds \<noteq> []" "list_all isdigit ds"
  shows "float_unsigned fd neg ds = Some (Fin (fd (if neg then - real (digits_val ds) else real (digits_val ds))))"
proof -
  from assms obtain d ds' where ds: "ds = d # ds'" and d: "isdigit d" by (cases ds) auto
  then have "hd (map lower ds) = d" by (simp add: lower_digit)
  moreover have "d \<noteq> CHR ''i''" "d \<noteq> CHR ''n''" using d by (auto simp: isdigit_def)
  ultimately have "map lower ds \<noteq> ''inf''" "map lower ds \<noteq> ''infinity''" "map lower ds \<noteq> ''nan''"
    by auto
  with float_decimal_digits[OF assms] show ?thesis by (simp add: float_unsigned_def)
qed

lemma py_digits_Some:
  "py_digits s = Some n \<Longrightarrow>
     \<exists>ds. drop_underscores None s = Some ds \<and> ds \<noteq> [] \<and> list_all isdigit ds \<and> n = digits_val ds"
  by (auto simp: py_digits_def split: option.splits if_splits)

lemma py_int_float:
  assumes "py_int s = Inr r"
  shows "py_float fd s = Inr (Fin (fd (real_of_int r)))"
proof (cases s)
  case Nil
  with assms show ?thesis by (simp add: py_int_def)
next
  case (Cons c cs)
  consider (minus) "c = CHR ''-''" | (plus) "c = CHR ''+''" | (none) "c \<noteq> CHR ''-''" "c \<noteq> CHR ''+''"
    by blast
  then show ?thesis
  proof cases
    case minus
    with assms Cons obtain n where n: "py_digits cs = Some n" "r = - int n"
      by (auto simp: py_int_def split: option.splits)
    from py_digits_Some[OF n(1)] obtain ds where ds: "drop_underscores None cs = Some ds"
      "ds \<noteq> []" "list_all isdigit ds" "n = digits_val ds" by blast
    have "drop_underscores (Some (CHR ''-'')) cs = drop_underscores None cs"
      by (rule drop_underscores_prev) (simp_all add: isdigit_def)
    with ds(1) minus Cons have "drop_underscores None s = Some (CHR ''-'' # ds)" by simp
    with float_unsigned_digits[OF ds(2,3), of fd True] n ds(4) show ?thesis
      by (simp add: py_float_def)
  next
    case plus
    with assms Cons obtain n where n: "py_digits cs = Some n" "r = int n"
      by (auto simp: py_int_def split: option.splits)
    from py_digits_Some[OF n(1)] obtain ds where ds: "drop_underscores None cs = Some ds"
      "ds \<noteq> []" "list_all isdigit ds" "n = digits_val ds" by blast
    have "drop_underscores (Some (CHR ''+'')) cs = drop_underscores None cs"
      by (rule drop_underscores_prev) (simp_all add: isdigit_def)
    with ds(1) plus Cons have "drop_underscores None s = Some (CHR ''+'' # ds)" by simp
    with float_unsigned_digits[OF ds(2,3), of fd False] n ds(4) show ?thesis
      by (simp add: py_float_def)
  next
    case none
    with assms Cons obtain n where n: "py_digits s = Some n" "r = int n"
      by (auto simp: py_int_def split: option.splits)
    from py_digits_Some[OF n(1)] obtain ds where ds: "drop_underscores None s = Some ds"
      "ds \<noteq> []" "list_all isdigit ds" "n = digits_val ds" by blast
    from ds(2,3) obtain d ds' where dd: "ds = d # ds'" "isdigit d" by (cases ds) auto
    then have "d \<noteq> CHR ''-''" "d \<noteq> CHR ''+''" by (auto simp: isdigit_def)
    with ds(1) dd float_unsigned_digits[OF ds(2,3), of fd False] n ds(4) show ?thesis
      by (simp add: py_float_def)
  qed
qed

lemma field_int_float:
  "field_int parts k = Inr r \<Longrightarrow> field_float fd parts k = Inr (Fin (fd (real_of_int r)))"
  by (auto simp: field_int_def field_float_def ebind_eq_Inr py_int_float)

subsection \<open>The returned arrays\<close>

lemma buffers_eq:
  assumes "returned (load_custom_off fd ff (Lines lines) cb) = Some (positions, colors)"
    and "read_counts lines = Inr (V, F)"
    and "read_vertices fd lines (py_range V) [] = Inr vp"
  shows "positions = map (map (float32 ff)) (concat (map (\<lambda>i. fst (appended fd lines V vp i)) (py_range F)))"
    and "colors = map (map (float32 ff)) (concat (map (\<lambda>i. snd (appended fd lines V vp i)) (py_range F)))"
    and "\<forall>i \<in> set (py_range F). \<exists>r. ebind (face_record lines V i) (parse_face fd vp) = Inr r"
proof -
  from load_success[OF assms(1)] assms(2,3) obtain st where
    l: "faces_loop fd lines V F vp cb (py_range F)
          \<lparr>final_vertices = [], final_colors = [], calls = []\<rparr> = (None, st)"
    and p: "np_array ff (final_vertices st) = Inr positions"
    and c: "np_array ff (final_colors st) = Inr colors"
    by auto
  from faces_loop_ok[OF l] np_array_Inr[OF p] np_array_Inr[OF c]
  show "positions = map (map (float32 ff)) (concat (map (\<lambda>i. fst (appended fd lines V vp i)) (py_range F)))"
    and "colors = map (map (float32 ff)) (concat (map (\<lambda>i. snd (appended fd lines V vp i)) (py_range F)))"
    and "\<forall>i \<in> set (py_range F). \<exists>r. ebind (face_record lines V i) (parse_face fd vp) = Inr r"
    by simp_all
qed

lemma py_range_split:
  assumes "0 \<le> k" "k < F"
  shows "\<exists>rest. py_range F = py_range k @ k # rest"
proof -
  from assms have "nat k < nat F" by simp
  then have "[0..<nat F] = [0..<nat k] @ nat k # [Suc (nat k)..<nat F]"
    by (metis le0 upt_add_eq_append upt_conv_Cons le_add_diff_inverse less_imp_le_nat add_0)
  then have "py_range F = py_range k @ int (nat k) # map int [Suc (nat k)..<nat F]"
    by (simp add: py_range_def)
  with assms show ?thesis by simp
qed

lemma take_drop_middle:
  "length a = n \<Longrightarrow> length x = m \<Longrightarrow> take m (drop n (map g (a @ x @ b))) = map g x"
  by simp

lemma rounds_int: "rounds f \<Longrightarrow> 0 \<le> r \<Longrightarrow> r \<le> 255 \<Longrightarrow> f (real_of_int r) = real_of_int r"
proof -
  assume r: "rounds f" and b: "0 \<le> r" "r \<le> 255"
  from b have "\<bar>r\<bar> \<le> 2 ^ 24" by simp
  with r show ?thesis unfolding rounds_def by blast
qed

lemma unit_fraction: "0 \<le> r \<Longrightarrow> r \<le> 255 \<Longrightarrow> 0 \<le> real_of_int r / 255 \<and> real_of_int r / 255 \<le> 1"
  by simp

lemma rounds_id: "rounds (\<lambda>x. x)"
  by (simp add: rounds_def mono_def)

subsection \<open>The iterations that are started\<close>

text \<open>
  The calls made when no iteration raises, and when the first iteration to raise is \<open>k\<close>:
  the loop reports before it reads, so iteration \<open>k\<close> itself is still reported.
\<close>

lemma faces_loop_all:
  assumes "\<forall>i \<in> set is. \<not> raises fd lines V vp i"
  shows "fst (faces_loop fd lines V F vp cb is st) = None \<and>
         calls (snd (faces_loop fd lines V F vp cb is st)) =
           foldl (\<lambda>cs i. report_progress fd cb F i cs) (calls st) is"
  using assms
proof (induction "is" arbitrary: st)
  case Nil
  then show ?case by simp
next
  case (Cons i "is")
  let ?st1 = "st\<lparr>calls := report_progress fd cb F i (calls st)\<rparr>"
  from Cons.prems have rest: "\<forall>i \<in> set is. \<not> raises fd lines V vp i" by simp
  from Cons.prems obtain r where Inr: "ebind (face_record lines V i) (parse_face fd vp) = Inr r"
    by (cases "ebind (face_record lines V i) (parse_face fd vp)") (simp_all add: raises_def)
  show ?case
  proof (cases r)
    case None
    with Inr have eq: "faces_loop fd lines V F vp cb (i # is) st = faces_loop fd lines V F vp cb is ?st1"
      by (simp add: Let_def)
    from Cons.IH[OF rest, of ?st1] show ?thesis unfolding eq by simp
  next
    case (Some p)
    obtain vs cs where p: "p = (vs, cs)" by (cases p)
    let ?st2 = "?st1\<lparr>final_vertices := final_vertices ?st1 @ vs, final_colors := final_colors ?st1 @ cs\<rparr>"
    from Inr Some p have eq: "faces_loop fd lines V F vp cb (i # is) st = faces_loop fd lines V F vp cb is ?st2"
      by (simp add: Let_def)
    from Cons.IH[OF rest, of ?st2] show ?thesis unfolding eq by simp
  qed
qed

lemma faces_loop_fails_at:
  assumes "\<forall>j \<in> set pre. \<not> raises fd lines V vp j" and "raises fd lines V vp k"
  shows "(\<exists>e. fst (faces_loop fd lines V F vp cb (pre @ k # post) st) = Some e) \<and>
         calls (snd (faces_loop fd lines V F vp cb (pre @ k # post) st)) =
           foldl (\<lambda>cs i. report_progress fd cb F i cs) (calls st) (pre @ [k])"
  using assms(1)
proof (induction pre arbitrary: st)
  case Nil
  let ?st1 = "st\<lparr>calls := report_progress fd cb F k (calls st)\<rparr>"
  from assms(2) obtain e where "ebind (face_record lines V k) (parse_face fd vp) = Inl e"
    by (cases "ebind (face_record lines V k) (parse_face fd vp)") (simp_all add: raises_def)
  then have eq: "faces_loop fd lines V F vp cb (k # post) st = (Some e, ?st1)"
    by (simp add: Let_def)
  show ?case unfolding append_Nil eq by simp
next
  case (Cons i pre)
  let ?st1 = "st\<lparr>calls := report_progress fd cb F i (calls st)\<rparr>"
  from Cons.prems have rest: "\<forall>j \<in> set pre. \<not> raises fd lines V vp j" by simp
  from Cons.prems obtain r where Inr: "ebind (face_record lines V i) (parse_face fd vp) = Inr r"
    by (cases "ebind (face_record lines V i) (parse_face fd vp)") (simp_all add: raises_def)
  show ?case
  proof (cases r)
    case None
    with Inr have eq: "faces_loop fd lines V F vp cb ((i # pre) @ k # post) st =
        faces_loop fd lines V F vp cb (pre @ k # post) ?st1"
      by (simp add: Let_def)
    from Cons.IH[OF rest, of ?st1] show ?thesis unfolding eq by simp
  next
    case (Some p)
    obtain vs cs where p: "p = (vs, cs)" by (cases p)
    let ?st2 = "?st1\<lparr>final_vertices := final_vertices ?st1 @ vs, final_colors := final_colors ?st1 @ cs\<rparr>"
    from Inr Some p have eq: "faces_loop fd lines V F vp cb ((i # pre) @ k # post) st =
        faces_loop fd lines V F vp cb (pre @ k # post) ?st2"
      by (simp add: Let_def)
    from Cons.IH[OF rest, of ?st2] show ?thesis unfolding eq by simp
  qed
qed

lemma py_range_Suc: "0 \<le> k \<Longrightarrow> py_range (k + 1) = py_range k @ [k]"
  using py_range_step[of "k + 1"] by simp

lemma try_body_fails_at:
  assumes c: "read_counts lines = Inr (V, F)"
    and h: "check_header lines = Inr ()"
    and v: "read_vertices fd lines (py_range V) [] = Inr vp"
    and k: "0 \<le> k" "k < F" "raises fd lines V vp k"
    and before: "\<forall>j \<in> set (py_range k). \<not> raises fd lines V vp j"
  shows "(\<exists>e. fst (try_body fd ff (Lines lines) cb) = Inl e) \<and>
         snd (try_body fd ff (Lines lines) cb) =
           (if cb then map (progress_entry fd F) (filter (reported F) (py_range (k + 1))) else [])"
proof -
  let ?st0 = "\<lparr>final_vertices = [], final_colors = [], calls = []\<rparr>"
  from py_range_split[OF k(1,2)] obtain post where split: "py_range F = py_range k @ k # post" ..
  from faces_loop_fails_at[OF before k(3), of F cb post ?st0]
  obtain e where e: "fst (faces_loop fd lines V F vp cb (py_range F) ?st0) = Some e"
    and cs: "calls (snd (faces_loop fd lines V F vp cb (py_range F) ?st0)) =
       foldl (\<lambda>cs i. report_progress fd cb F i cs) [] (py_range k @ [k])"
    unfolding split by auto
  obtain st where l: "faces_loop fd lines V F vp cb (py_range F) ?st0 = (Some e, st)"
    using e by (cases "faces_loop fd lines V F vp cb (py_range F) ?st0") simp
  from h c v l have t: "try_body fd ff (Lines lines) cb = (Inl e, calls st)"
    by (simp add: try_body_Lines)
  from cs l have "calls st = foldl (\<lambda>cs i. report_progress fd cb F i cs) [] (py_range (k + 1))"
    by (simp add: py_range_Suc[OF k(1)])
  with t show ?thesis by (simp add: foldl_report)
qed

lemma try_body_no_raise:
  assumes c: "read_counts lines = Inr (V, F)"
    and h: "check_header lines = Inr ()"
    and v: "read_vertices fd lines (py_range V) [] = Inr vp"
    and none: "\<forall>j \<in> set (py_range F). \<not> raises fd lines V vp j"
  shows "snd (try_body fd ff (Lines lines) cb) =
           (if cb then map (progress_entry fd F) (filter (reported F) (py_range F)) else [])"
proof -
  let ?st0 = "\<lparr>final_vertices = [], final_colors = [], calls = []\<rparr>"
  from faces_loop_all[OF none, of F cb ?st0]
  have e: "fst (faces_loop fd lines V F vp cb (py_range F) ?st0) = None"
    and cs: "calls (snd (faces_loop fd lines V F vp cb (py_range F) ?st0)) =
       foldl (\<lambda>cs i. report_progress fd cb F i cs) [] (py_range F)"
    by simp_all
  obtain st where l: "faces_loop fd lines V F vp cb (py_range F) ?st0 = (None, st)"
    using e by (cases "faces_loop fd lines V F vp cb (py_range F) ?st0") simp
  from h c v l have t: "snd (try_body fd ff (Lines lines) cb) = calls st"
    by (simp add: try_body_Lines)
  from cs l t show ?thesis by (simp add: foldl_report)
qed

lemma try_body_before_loop:
  assumes c: "read_counts lines = Inr (V, F)"
    and "(\<exists>e. check_header lines = Inl e) \<or> (\<exists>e. read_vertices fd lines (py_range V) [] = Inl e)"
  shows "snd (try_body fd ff (Lines lines) cb) = []"
proof (cases "check_header lines")
  case (Inl e)
  then show ?thesis by (simp add: try_body_Lines)
next
  case (Inr u)
  with assms(2) obtain e where "read_vertices fd lines (py_range V) [] = Inl e" by auto
  with Inr c show ?thesis by (simp add: try_body_Lines)
qed

section \<open>Tokens after the two counts\<close>

text \<open>
  Line 2 is read once more by the face loop only when the vertex count is negative, and then
  its leading token, the vertex count itself, is not 3: the line is skipped as a face that is
  not a triangle. So two files that differ in the tokens after the two counts load alike.
\<close>

lemma getitem_pos:
  "getitem xs j =
     (if 0 \<le> (if 0 \<le> j then j else int (length xs) + j) \<and>
         (if 0 \<le> j then j else int (length xs) + j) < int (length xs)
      then Inr (xs ! nat (if 0 \<le> j then j else int (length xs) + j))
      else Inl IndexError)"
  by (auto simp: getitem_def)

lemma counts_line_leading:
  assumes "py_map py_int (split (strip cl)) = Inr (v # f # extra)"
  shows "field_int (split (strip cl)) 0 = Inr v"
proof -
  from assms have "list_all2 (\<lambda>x y. py_int x = Inr y) (split (strip cl)) (v # f # extra)"
    by (simp add: py_map_Inr)
  then obtain t ts where "split (strip cl) = t # ts" "py_int t = Inr v"
    by (auto simp: list_all2_Cons2)
  then show ?thesis by (simp add: field_int_def getitem_0)
qed

lemma face_step_counts_line:
  assumes cl: "py_map py_int (split (strip cl)) = Inr (v # f # extra)"
    and cl': "py_map py_int (split (strip cl')) = Inr (v # f # extra')"
    and i: "0 \<le> i"
  shows "ebind (face_record (h # cl # rest) v i) (parse_face fd vp) =
         ebind (face_record (h # cl' # rest) v i) (parse_face fd vp)"
proof -
  let ?L = "h # cl # rest" and ?L' = "h # cl' # rest"
  define j where "j = 2 + v + i"
  define n where "n = (if 0 \<le> j then j else int (length ?L) + j)"
  have gL: "getitem ?L j = (if 0 \<le> n \<and> n < int (length ?L) then Inr (?L ! nat n) else Inl IndexError)"
    unfolding n_def by (rule getitem_pos)
  have gL': "getitem ?L' j = (if 0 \<le> n \<and> n < int (length ?L) then Inr (?L' ! nat n) else Inl IndexError)"
    unfolding n_def using getitem_pos[of ?L' j] by simp
  show ?thesis
  proof (cases "0 \<le> n \<and> n < int (length ?L)")
    case False
    with gL have "getitem ?L j = Inl IndexError" by simp
    moreover from False gL' have "getitem ?L' j = Inl IndexError" by simp
    ultimately show ?thesis by (simp only: face_record_def j_def ebind_Inl ebind_Inr)
  next
    case inr: True
    with gL have a: "getitem ?L j = Inr (?L ! nat n)" by simp
    from inr gL' have b: "getitem ?L' j = Inr (?L' ! nat n)" by simp
    show ?thesis
    proof (cases "nat n = 1")
      case False
      then have "?L ! nat n = ?L' ! nat n" by (cases "nat n") (auto simp: nth_Cons')
      with a b show ?thesis by (simp only: face_record_def j_def ebind_Inl ebind_Inr)
    next
      case True
      have neg: "v < 0"
      proof (rule ccontr)
        assume "\<not> v < 0"
        with i have "2 \<le> j" by (simp add: j_def)
        then have "n = j" by (simp add: n_def)
        with \<open>2 \<le> j\<close> True show False by simp
      qed
      from counts_line_leading[OF cl] neg have "parse_face fd vp (split (strip cl)) = Inr None"
        by (simp add: parse_face_skip)
      moreover from counts_line_leading[OF cl'] neg have "parse_face fd vp (split (strip cl')) = Inr None"
        by (simp add: parse_face_skip)
      ultimately show ?thesis using a b True
        by (simp add: face_record_def j_def)
    qed
  qed
qed

lemma faces_loop_counts_line:
  assumes cl: "py_map py_int (split (strip cl)) = Inr (v # f # extra)"
    and cl': "py_map py_int (split (strip cl')) = Inr (v # f # extra')"
    and nn: "\<forall>i \<in> set is. 0 \<le> i"
  shows "faces_loop fd (h # cl # rest) v F vp cb is st = faces_loop fd (h # cl' # rest) v F vp cb is st"
  using nn
proof (induction "is" arbitrary: st)
  case Nil
  then show ?case by simp
next
  case (Cons i "is")
  then have i: "0 \<le> i" and rest: "\<forall>i \<in> set is. 0 \<le> i" by simp_all
  note step = face_step_counts_line[OF cl cl' i, of h rest fd vp]
  show ?case
    by (simp only: faces_loop.simps step Cons.IH[OF rest])
qed

lemma read_vertices_counts_line:
  assumes "\<forall>i \<in> set is. 0 \<le> i"
  shows "read_vertices fd (h # cl # rest) is vp = read_vertices fd (h # cl' # rest) is vp"
  using assms
proof (induction "is" arbitrary: vp)
  case Nil
  then show ?case by simp
next
  case (Cons i "is")
  then have i: "0 \<le> i" and rest: "\<forall>i \<in> set is. 0 \<le> i" by simp_all
  from i have "getitem (h # cl # rest) (2 + i) = getitem (h # cl' # rest) (2 + i)"
    by (auto simp: getitem_def nth_Cons')
  with Cons.IH[OF rest] show ?case by simp
qed

lemma py_range_nonneg: "\<forall>i \<in> set (py_range n). 0 \<le> i"
  by (simp add: set_py_range)

lemma counts_line_tokens_after:
  assumes cl: "py_map py_int (split (strip cl)) = Inr (v # f # extra)"
    and cl': "py_map py_int (split (strip cl')) = Inr (v # f # extra')"
  shows "load_custom_off fd ff (Lines (h # cl # rest)) cb =
         load_custom_off fd ff (Lines (h # cl' # rest)) cb"
proof -
  have h: "check_header (h # cl # rest) = check_header (h # cl' # rest)"
    by (simp add: check_header_eq)
  have c: "read_counts (h # cl # rest) = Inr (v, f)" "read_counts (h # cl' # rest) = Inr (v, f)"
    using cl cl' by (simp_all add: read_counts_eq[of _ cl] read_counts_eq[of _ cl'] getitem_1)
  have rv: "read_vertices fd (h # cl # rest) (py_range v) [] =
            read_vertices fd (h # cl' # rest) (py_range v) []"
    by (rule read_vertices_counts_line[OF py_range_nonneg])
  have fl: "faces_loop fd (h # cl # rest) v f vp cb (py_range f) st =
            faces_loop fd (h # cl' # rest) v f vp cb (py_range f) st" for vp st
    by (rule faces_loop_counts_line[OF cl cl' py_range_nonneg])
  have "try_body fd ff (Lines (h # cl # rest)) cb = try_body fd ff (Lines (h # cl' # rest)) cb"
    unfolding try_body_Lines h
    by (cases "check_header (h # cl' # rest)";
        cases "read_vertices fd (h # cl' # rest) (py_range v) []") (simp_all add: c rv fl)
  then show ?thesis by (simp add: load_custom_off_def)
qed

lemma getitem_1_Cons:
  assumes "getitem lines 1 = Inr cl"
  shows "\<exists>h rest. lines = h # cl # rest"
proof (cases lines)
  case Nil
  with assms show ?thesis by (simp add: getitem_def)
next
  case outer: (Cons h tl)
  show ?thesis
  proof (cases tl)
    case Nil
    with outer assms show ?thesis by (simp add: getitem_def)
  next
    case (Cons c rest)
    with outer assms have "c = cl" by (simp add: getitem_def)
    with outer Cons show ?thesis by simp
  qed
qed

section \<open>Facts about the camera\<close>

lemma pitch_process_input:
  "pitch (process_input fd ff cam keys mouse_rel delta_time) =
     max (- 89) (min 89 (fd (pitch cam - fd (snd mouse_rel * mouse_sensitivity cam))))"
  by (simp add: process_input_def Let_def)

lemma pitch_run_frames:
  "- 89 \<le> pitch cam \<and> pitch cam \<le> 89 \<Longrightarrow>
     - 89 \<le> pitch (run_frames fd ff cam frames) \<and> pitch (run_frames fd ff cam frames) \<le> 89"
proof (induction frames arbitrary: cam)
  case Nil
  then show ?case by simp
next
  case (Cons fr frames)
  obtain keys mouse_rel delta_time where fr: "fr = (keys, mouse_rel, delta_time)" by (cases fr)
  have "- 89 \<le> pitch (process_input fd ff cam keys mouse_rel delta_time) \<and>
        pitch (process_input fd ff cam keys mouse_rel delta_time) \<le> 89"
    by (simp add: pitch_process_input)
  from Cons.IH[OF this] fr show ?case by simp
qed

lemma dot_direction:
  "(cos a * cos b) * (cos a * cos b) + sin b * sin b + (sin a * cos b) * (sin a * cos b) = (1::real)"
proof -
  have ua: "cos a * cos a + sin a * sin a = 1"
    using sin_cos_squared_add2[of a] by (simp add: power2_eq_square)
  have ub: "cos b * cos b + sin b * sin b = 1"
    using sin_cos_squared_add2[of b] by (simp add: power2_eq_square)
  have "(cos a * cos b) * (cos a * cos b) + sin b * sin b + (sin a * cos b) * (sin a * cos b)
        = (cos a * cos a + sin a * sin a) * (cos b * cos b) + sin b * sin b"
    by algebra
  also have "\<dots> = 1 * (cos b * cos b) + sin b * sin b" by (simp only: ua)
  also have "\<dots> = 1" using ub by (simp only: mult_1)
  finally show ?thesis .
qed

lemma vadd_vsub_exact: "vsub (\<lambda>x. x) (vadd (\<lambda>x. x) p d) d = p"
  by (cases p) (simp add: vadd_def vsub_def)

lemma vsub_vadd_exact: "vadd (\<lambda>x. x) (vsub (\<lambda>x. x) p d) d = p"
  by (cases p) (simp add: vadd_def vsub_def)

subsection \<open>Rounding at given numbers\<close>

lemma floor_log2_eq:
  "0 < x \<Longrightarrow> 2 powr real_of_int k \<le> x \<Longrightarrow> x < 2 powr real_of_int (k + 1) \<Longrightarrow> \<lfloor>log 2 x\<rfloor> = k"
  by (simp add: floor_log_eq_powr_iff)

lemma round_half_even_int [simp]: "round_half_even (real_of_int n) = n"
  by (simp add: round_half_even_def)

lemma round_to_eval:
  assumes "x \<noteq> 0" "2 powr real_of_int k \<le> \<bar>x\<bar>" "\<bar>x\<bar> < 2 powr real_of_int (k + 1)"
  shows "round_to p x =
     real_of_int (round_half_even (x / 2 powr real_of_int (k - int p + 1))) * 2 powr real_of_int (k - int p + 1)"
proof -
  from assms have "\<lfloor>log 2 \<bar>x\<bar>\<rfloor> = k" by (intro floor_log2_eq) simp_all
  with assms(1) show ?thesis by (simp add: round_to_def Let_def)
qed

lemma round_to_24_a: "round_to 24 (5 / 8) = 5 / 8"
proof -
  have "round_half_even (real_of_int 10485760) = 10485760" by (rule round_half_even_int)
  then have r: "round_half_even 10485760 = 10485760" by simp
  show ?thesis
    by (subst round_to_eval[where k = "- 1"]) (simp_all add: powr_minus r powr_realpow[symmetric] divide_simps)
qed


lemma round_half_even_low:
  "real_of_int n \<le> q \<Longrightarrow> q < real_of_int n + 1 / 2 \<Longrightarrow> round_half_even q = n"
proof -
  assume a: "real_of_int n \<le> q" "q < real_of_int n + 1 / 2"
  then have "\<lfloor>q\<rfloor> = n" by (intro floor_unique) simp_all
  with a show ?thesis by (simp add: round_half_even_def Let_def)
qed

lemma round_to_53_a: "round_to 53 (5 / 8) = 5 / 8"
proof -
  have "round_half_even (real_of_int 5629499534213120) = 5629499534213120" by (rule round_half_even_int)
  then have r: "round_half_even 5629499534213120 = 5629499534213120" by simp
  show ?thesis
    by (subst round_to_eval[where k = "- 1"]) (simp_all add: powr_minus r powr_realpow[symmetric] divide_simps)
qed

lemma round_to_24_b: "round_to 24 (134217733 / 8) = 16777216"
proof -
  have r: "round_half_even (134217733 / 16) = 8388608"
    by (rule round_half_even_low) simp_all
  show ?thesis
    by (subst round_to_eval[where k = 24]) (simp_all add: r powr_realpow[symmetric])
qed

lemma round_to_24_c: "round_to 24 (134217723 / 8) = 16777215"
proof -
  have r: "round_half_even (134217723 / 8) = 16777215"
    by (rule round_half_even_low) simp_all
  show ?thesis
    by (subst round_to_eval[where k = 23]) (simp_all add: r powr_realpow[symmetric])
qed

lemma round_to_0 [simp]: "round_to p 0 = 0"
  by (simp add: round_to_def)

section \<open>Facts about rounding to a binary format\<close>

text \<open>
  Rounding to the nearest number with at least 24 significant bits is monotone and keeps
  the integers of magnitude up to \<open>2 ^ 24\<close>: what the theorems on the loader ask of a
  rounding holds for the 32-bit format and for the double, as it does for exact arithmetic.
\<close>

lemma round_half_even_bounds:
  "real_of_int \<lfloor>q\<rfloor> \<le> real_of_int (round_half_even q) \<and> round_half_even q \<le> \<lfloor>q\<rfloor> + 1"
  by (simp add: round_half_even_def Let_def)

lemma round_half_even_mono: "q \<le> r \<Longrightarrow> round_half_even q \<le> round_half_even r"
proof -
  assume qr: "q \<le> r"
  then have fl: "\<lfloor>q\<rfloor> \<le> \<lfloor>r\<rfloor>" by (rule floor_mono)
  show ?thesis
  proof (cases "\<lfloor>q\<rfloor> = \<lfloor>r\<rfloor>")
    case True
    with qr have "q - of_int \<lfloor>q\<rfloor> \<le> r - of_int \<lfloor>r\<rfloor>" by simp
    with True show ?thesis by (auto simp: round_half_even_def Let_def)
  next
    case False
    with fl have "\<lfloor>q\<rfloor> + 1 \<le> \<lfloor>r\<rfloor>" by simp
    moreover have "round_half_even q \<le> \<lfloor>q\<rfloor> + 1" using round_half_even_bounds by blast
    moreover have "\<lfloor>r\<rfloor> \<le> round_half_even r" using round_half_even_bounds[of r] by simp
    ultimately show ?thesis by linarith
  qed
qed

lemma round_half_even_uminus: "round_half_even (- q) = - round_half_even q"
proof (cases "q = of_int \<lfloor>q\<rfloor>")
  case True
  then obtain n where "q = of_int n" ..
  then have "round_half_even q = n" "round_half_even (- q) = - n"
    using round_half_even_int[of n] round_half_even_int[of "- n"] by simp_all
  then show ?thesis by simp
next
  case False
  then have "q \<notin> \<int>" by (metis Ints_cases of_int_floor_cancel)
  then have c: "\<lfloor>- q\<rfloor> = - \<lfloor>q\<rfloor> - 1"
    by (simp add: floor_minus ceiling_altdef Ints_def False)
  have d: "0 < q - of_int \<lfloor>q\<rfloor>" using False by (simp add: less_le)
  show ?thesis unfolding round_half_even_def Let_def c
    by (auto simp: field_simps)
qed

lemma round_to_uminus: "round_to p (- x) = - round_to p x"
  by (simp add: round_to_def Let_def round_half_even_uminus)

lemma log2_binade:
  assumes "0 < x"
  shows "2 powr real_of_int \<lfloor>log 2 x\<rfloor> \<le> x \<and> x < 2 powr real_of_int (\<lfloor>log 2 x\<rfloor> + 1)"
  using assms floor_log_eq_powr_iff[of x 2 "\<lfloor>log 2 x\<rfloor>"] by simp

lemma two_powr_nat: "2 powr real_of_int (int n) = real_of_int (2 ^ n)"
  by (simp add: powr_realpow)

lemma round_to_pos_bounds:
  assumes x: "0 < x" and p: "0 < p"
  shows "2 powr real_of_int \<lfloor>log 2 x\<rfloor> \<le> round_to p x \<and>
         round_to p x \<le> 2 powr real_of_int (\<lfloor>log 2 x\<rfloor> + 1)"
proof -
  define k where "k = \<lfloor>log 2 x\<rfloor>"
  define e where "e = k - int p + 1"
  define u :: real where "u = 2 powr real_of_int e"
  define q where "q = x / u"
  have u: "0 < u" by (simp add: u_def)
  from log2_binade[OF x] have b: "2 powr real_of_int k \<le> x" "x < 2 powr real_of_int (k + 1)"
    by (simp_all add: k_def)
  have lo: "2 powr real_of_int k = real_of_int (2 ^ (p - 1)) * u"
  proof -
    from p have "k = int (p - 1) + e" by (simp add: e_def)
    then have "2 powr real_of_int k = 2 powr real_of_int (int (p - 1)) * 2 powr real_of_int e"
      by (simp add: powr_add)
    then show ?thesis by (simp only: two_powr_nat u_def)
  qed
  have hi: "2 powr real_of_int (k + 1) = real_of_int (2 ^ p) * u"
  proof -
    have "k + 1 = int p + e" by (simp add: e_def)
    then have "2 powr real_of_int (k + 1) = 2 powr real_of_int (int p) * 2 powr real_of_int e"
      by (simp only: of_int_add powr_add)
    then show ?thesis by (simp only: two_powr_nat u_def)
  qed
  from b lo hi u have qb: "real_of_int (2 ^ (p - 1)) \<le> q" "q \<le> real_of_int (2 ^ p)"
    by (simp_all add: q_def field_simps)
  from round_half_even_mono[OF qb(1)] round_half_even_mono[OF qb(2)]
  have rb: "2 ^ (p - 1) \<le> round_half_even q" "round_half_even q \<le> 2 ^ p"
    by (simp_all only: round_half_even_int)
  have rt: "round_to p x = real_of_int (round_half_even q) * u"
    using x by (simp add: round_to_def Let_def k_def e_def u_def q_def)
  from rb(1) have "real_of_int (2 ^ (p - 1)) \<le> real_of_int (round_half_even q)" by (simp only: of_int_le_iff)
  with u have l: "real_of_int (2 ^ (p - 1)) * u \<le> real_of_int (round_half_even q) * u"
    by (simp only: mult_le_cancel_right_pos)
  from rb(2) have "real_of_int (round_half_even q) \<le> real_of_int (2 ^ p)" by (simp only: of_int_le_iff)
  with u have h: "real_of_int (round_half_even q) * u \<le> real_of_int (2 ^ p) * u"
    by (simp only: mult_le_cancel_right_pos)
  from l h show ?thesis unfolding rt k_def[symmetric] lo hi by simp
qed

lemma round_to_mono_pos:
  assumes "0 < x" "x \<le> y" "0 < p"
  shows "round_to p x \<le> round_to p y"
proof -
  from assms have y: "0 < y" by simp
  from assms have "log 2 x \<le> log 2 y" by simp
  then have kk: "\<lfloor>log 2 x\<rfloor> \<le> \<lfloor>log 2 y\<rfloor>" by (rule floor_mono)
  show ?thesis
  proof (cases "\<lfloor>log 2 x\<rfloor> = \<lfloor>log 2 y\<rfloor>")
    case True
    define u :: real where "u = 2 powr real_of_int (\<lfloor>log 2 y\<rfloor> - int p + 1)"
    have u: "0 < u" by (simp add: u_def)
    with assms(2) have "x / u \<le> y / u" by (simp add: divide_right_mono)
    from round_half_even_mono[OF this] have
      "real_of_int (round_half_even (x / u)) \<le> real_of_int (round_half_even (y / u))" by simp
    with u have "real_of_int (round_half_even (x / u)) * u \<le> real_of_int (round_half_even (y / u)) * u"
      by (simp only: mult_le_cancel_right_pos)
    with assms(1) y True show ?thesis by (simp add: round_to_def Let_def u_def)
  next
    case False
    with kk have "\<lfloor>log 2 x\<rfloor> + 1 \<le> \<lfloor>log 2 y\<rfloor>" by simp
    then have "(2::real) powr real_of_int (\<lfloor>log 2 x\<rfloor> + 1) \<le> 2 powr real_of_int \<lfloor>log 2 y\<rfloor>"
      by simp
    with round_to_pos_bounds[OF assms(1,3)] round_to_pos_bounds[OF y assms(3)]
    show ?thesis by linarith
  qed
qed

lemma round_to_pos: "0 < x \<Longrightarrow> 0 < p \<Longrightarrow> 0 < round_to p x"
proof -
  assume "0 < x" "0 < p"
  from round_to_pos_bounds[OF this] have "2 powr real_of_int \<lfloor>log 2 x\<rfloor> \<le> round_to p x" ..
  moreover have "(0::real) < 2 powr real_of_int \<lfloor>log 2 x\<rfloor>" by simp
  ultimately show ?thesis by linarith
qed

lemma round_to_mono:
  assumes p: "0 < p"
  shows "mono (round_to p)"
proof (rule monoI)
  fix x y :: real
  assume xy: "x \<le> y"
  consider (pp) "0 < x" | (zp) "x = 0" "0 < y" | (zz) "x = 0" "y = 0" | (np) "x < 0" "0 \<le> y"
    | (nn) "x < 0" "y < 0"
    using xy by linarith
  then show "round_to p x \<le> round_to p y"
  proof cases
    case pp
    from round_to_mono_pos[OF pp xy p] show ?thesis .
  next
    case zp
    with round_to_pos[OF zp(2) p] show ?thesis by simp
  next
    case zz
    then show ?thesis by simp
  next
    case np
    then have "0 < - x" by simp
    from round_to_pos[OF this p] have "round_to p x < 0" by (simp add: round_to_uminus)
    moreover have "0 \<le> round_to p y"
    proof (cases "y = 0")
      case True
      then show ?thesis by simp
    next
      case False
      with np have "0 < y" by simp
      from round_to_pos[OF this p] show ?thesis by simp
    qed
    ultimately show ?thesis by linarith
  next
    case nn
    then have "0 < - y" "- y \<le> - x" using xy by simp_all
    from round_to_mono_pos[OF this p] show ?thesis by (simp add: round_to_uminus)
  qed
qed

lemma round_to_grid:
  assumes "x \<noteq> 0" "x / 2 powr real_of_int (\<lfloor>log 2 \<bar>x\<bar>\<rfloor> - int p + 1) = real_of_int m"
  shows "round_to p x = x"
proof -
  define u :: real where "u = 2 powr real_of_int (\<lfloor>log 2 \<bar>x\<bar>\<rfloor> - int p + 1)"
  have u: "u \<noteq> 0" by (simp add: u_def)
  from assms(2) have q: "x / u = real_of_int m" by (simp add: u_def)
  with u have "x = real_of_int m * u" by (simp add: field_simps)
  moreover from assms(1) q have "round_to p x = real_of_int (round_half_even (real_of_int m)) * u"
    by (simp add: round_to_def Let_def u_def)
  ultimately show ?thesis by (simp only: round_half_even_int)
qed

lemma round_to_pos_int:
  assumes n: "0 < n" "n \<le> 2 ^ 24" and p: "24 \<le> p"
  shows "round_to p (real_of_int n) = real_of_int n"
proof -
  define k where "k = \<lfloor>log 2 \<bar>real_of_int n\<bar>\<rfloor>"
  define e where "e = k - int p + 1"
  from n have pos: "0 < \<bar>real_of_int n\<bar>" by simp
  from n have nz: "real_of_int n \<noteq> 0" by simp
  from log2_binade[OF pos] have b: "2 powr real_of_int k \<le> real_of_int n"
    using n by (simp add: k_def)
  from n have "real_of_int n \<le> 2 powr real_of_int 24" by (simp add: powr_realpow[symmetric] flip: of_int_le_iff)
  with b have "(2::real) powr real_of_int k \<le> 2 powr real_of_int 24" by linarith
  moreover have "(2::real) powr a \<le> 2 powr c \<longleftrightarrow> a \<le> c" for a c
    by (rule powr_le_cancel_iff) simp
  ultimately have "real_of_int k \<le> real_of_int 24" by (simp only:)
  then have k24: "k \<le> 24" by (simp only: of_int_le_iff)
  show ?thesis
  proof (cases "e \<le> 0")
    case True
    then have "real_of_int (- e) = real (nat (- e))" by simp
    then have "2 powr real_of_int (- e) = (2::real) ^ nat (- e)"
      by (simp only: powr_realpow zero_less_numeral)
    then have "real_of_int n / 2 powr real_of_int e = real_of_int (n * 2 ^ nat (- e))"
      by (simp add: powr_minus field_simps)
    then have q: "real_of_int n / 2 powr real_of_int (\<lfloor>log 2 \<bar>real_of_int n\<bar>\<rfloor> - int p + 1) =
        real_of_int (n * 2 ^ nat (- e))"
      by (simp only: e_def k_def)
    from round_to_grid[OF nz q] show ?thesis .
  next
    case False
    with k24 p have e1: "e = 1" and k: "k = 24" by (simp_all add: e_def)
    from b k have "2 powr real_of_int 24 \<le> real_of_int n" by simp
    then have "(2::real) ^ 24 \<le> real_of_int n" by (simp add: powr_realpow[symmetric])
    then have "2 ^ 24 \<le> n" by (simp flip: of_int_le_iff)
    with n have n24: "n = 2 ^ 24" by simp
    have "real_of_int n / 2 powr real_of_int e = real_of_int (2 ^ 23)"
      by (simp add: n24 e1)
    then have q: "real_of_int n / 2 powr real_of_int (\<lfloor>log 2 \<bar>real_of_int n\<bar>\<rfloor> - int p + 1) =
        real_of_int (2 ^ 23)"
      by (simp only: e_def k_def)
    from round_to_grid[OF nz q] show ?thesis .
  qed
qed

lemma rounds_round_to:
  assumes "24 \<le> p"
  shows "rounds (round_to p)"
  unfolding rounds_def
proof (intro conjI allI impI)
  from assms show "mono (round_to p)" by (intro round_to_mono) simp
next
  fix n :: int
  assume a: "\<bar>n\<bar> \<le> 2 ^ 24"
  consider "n = 0" | "0 < n" | "n < 0" by linarith
  then show "round_to p (real_of_int n) = real_of_int n"
  proof cases
    case 1
    then show ?thesis by simp
  next
    case 2
    with a have "n \<le> 2 ^ 24" by simp
    from round_to_pos_int[OF 2 this assms] show ?thesis .
  next
    case 3
    with a have "0 < - n" "- n \<le> 2 ^ 24" by simp_all
    from round_to_pos_int[OF this assms] have "round_to p (- real_of_int n) = - real_of_int n"
      by simp
    then show ?thesis by (simp add: round_to_uminus)
  qed
qed

section \<open>Opposing translations under rounding\<close>

lemma turned_fields:
  "yaw (process_input fd ff cam (\<lambda>k. False) mouse_rel delta_time) =
     fd (yaw cam + fd (fst mouse_rel * mouse_sensitivity cam))"
  "pitch (process_input fd ff cam (\<lambda>k. False) mouse_rel delta_time) =
     max (- 89) (min 89 (fd (pitch cam - fd (snd mouse_rel * mouse_sensitivity cam))))"
  "speed (process_input fd ff cam (\<lambda>k. False) mouse_rel delta_time) = speed cam"
  "position (process_input fd ff cam (\<lambda>k. False) mouse_rel delta_time) = position cam"
  by (simp_all add: process_input_def Let_def)

lemma vadd_vsub_representable:
  "representable ff p \<Longrightarrow> vadd ff p d = vadd (\<lambda>x. x) p d \<Longrightarrow> vsub ff (vadd ff p d) d = p"
  by (cases p) (simp add: vadd_def vsub_def representable_def)

lemma vsub_vadd_representable:
  "representable ff p \<Longrightarrow> vsub ff p d = vsub (\<lambda>x. x) p d \<Longrightarrow> vadd ff (vsub ff p d) d = p"
  by (cases p) (simp add: vadd_def vsub_def representable_def)

lemma forward_pair_rounded:
  assumes keys: "keys K_w" "keys K_s" "\<not> keys K_a" "\<not> keys K_d" "\<not> keys K_SPACE"
      "\<not> keys K_LCTRL" "\<not> keys K_LSHIFT"
    and rep: "representable ff (position cam)"
    and sum: "vadd ff (position cam) (translation fd ff cam mouse_rel delta_time K_w) =
         vadd (\<lambda>x. x) (position cam) (translation fd ff cam mouse_rel delta_time K_w)"
  shows "position (process_input fd ff cam keys mouse_rel delta_time) = position cam"
proof -
  let ?d = "translation fd ff cam mouse_rel delta_time K_w"
  have d: "?d = vscale ff
      (get_forward_vector fd ff
         (cam\<lparr>yaw := fd (yaw cam + fd (fst mouse_rel * mouse_sensitivity cam)),
              pitch := max (- 89) (min 89 (fd (pitch cam - fd (snd mouse_rel * mouse_sensitivity cam))))\<rparr>))
      (fd (speed cam * delta_time))"
    by (simp add: translation_def Let_def get_forward_vector_def turned_fields)
  from vadd_vsub_representable[OF rep sum]
  have "vsub ff (vadd ff (position cam) ?d) ?d = position cam" .
  then show ?thesis unfolding d using keys by (simp add: process_input_def Let_def)
qed

lemma right_pair_rounded:
  assumes keys: "\<not> keys K_w" "\<not> keys K_s" "keys K_a" "keys K_d" "\<not> keys K_SPACE"
      "\<not> keys K_LCTRL" "\<not> keys K_LSHIFT"
    and rep: "representable ff (position cam)"
    and sum: "vsub ff (position cam) (translation fd ff cam mouse_rel delta_time K_a) =
         vsub (\<lambda>x. x) (position cam) (translation fd ff cam mouse_rel delta_time K_a)"
  shows "position (process_input fd ff cam keys mouse_rel delta_time) = position cam"
proof -
  let ?d = "translation fd ff cam mouse_rel delta_time K_a"
  have d: "?d = vscale ff
      (normalize ff (cross ff
         (get_forward_vector fd ff
            (cam\<lparr>yaw := fd (yaw cam + fd (fst mouse_rel * mouse_sensitivity cam)),
                 pitch := max (- 89) (min 89 (fd (pitch cam - fd (snd mouse_rel * mouse_sensitivity cam))))\<rparr>))
         (Vec3 0 1 0)))
      (fd (speed cam * delta_time))"
    by (simp add: translation_def Let_def get_forward_vector_def turned_fields)
  from vsub_vadd_representable[OF rep sum]
  have "vadd ff (vsub ff (position cam) ?d) ?d = position cam" .
  then show ?thesis unfolding d using keys by (simp add: process_input_def Let_def)
qed

lemma up_pair_rounded:
  assumes keys: "\<not> keys K_w" "\<not> keys K_s" "\<not> keys K_a" "\<not> keys K_d" "keys K_SPACE"
      "keys K_LCTRL \<or> keys K_LSHIFT"
    and rep: "representable ff (position cam)"
    and sum: "vadd ff (position cam) (translation fd ff cam mouse_rel delta_time K_SPACE) =
         vadd (\<lambda>x. x) (position cam) (translation fd ff cam mouse_rel delta_time K_SPACE)"
  shows "position (process_input fd ff cam keys mouse_rel delta_time) = position cam"
proof -
  let ?d = "translation fd ff cam mouse_rel delta_time K_SPACE"
  have d: "?d = vscale ff (Vec3 0 1 0) (fd (speed cam * delta_time))"
    by (simp add: translation_def Let_def turned_fields)
  from vadd_vsub_representable[OF rep sum]
  have "vsub ff (vadd ff (position cam) ?d) ?d = position cam" .
  then show ?thesis unfolding d using keys by (simp add: process_input_def Let_def)
qed

lemma round_to_24_d: "round_to 24 (21 / 8) = 21 / 8"
proof -
  have "round_half_even (real_of_int 11010048) = 11010048" by (rule round_half_even_int)
  then have r: "round_half_even 11010048 = 11010048" by simp
  show ?thesis
    by (subst round_to_eval[where k = 1]) (simp_all add: powr_minus r powr_realpow[symmetric] divide_simps)
qed

lemma round_to_24_small: "round_to 24 2 = 2" "round_to 24 20 = 20"
  using round_to_pos_int[of 2 24] round_to_pos_int[of 20 24] by simp_all

section \<open>The length of the forward vector under rounding\<close>

text \<open>
  An error analysis of \<^verbatim>\<open>get_forward_vector\<close> for roundings that are accurate in the sense
  of \<open>accurate\<close>. The direction before normalization is within a unit roundoff of a vector
  of length one; normalization multiplies it by a factor whose square times the squared
  length is one up to seven unit roundoffs; the three products are rounded once more.
\<close>

lemma accurate_mono:
  assumes "accurate u \<eta> f" "u \<le> u'" "\<eta> \<le> \<eta>'"
  shows "accurate u' \<eta>' f"
  unfolding accurate_def
proof (intro allI impI)
  fix x :: real assume "\<bar>x\<bar> \<le> 4"
  with assms(1) have "\<bar>f x - x\<bar> \<le> u * \<bar>x\<bar> + \<eta>" by (simp add: accurate_def)
  moreover from assms(2) have "u * \<bar>x\<bar> \<le> u' * \<bar>x\<bar>" by (rule mult_right_mono) simp
  ultimately show "\<bar>f x - x\<bar> \<le> u' * \<bar>x\<bar> + \<eta>'" using assms(3) by linarith
qed

lemma single_error:
  assumes "accurate (1 / 2 ^ 24) (1 / 2 ^ 40) f" "\<bar>x\<bar> \<le> 4"
  shows "\<bar>f x - x\<bar> \<le> \<bar>x\<bar> / 2 ^ 24 + 1 / 2 ^ 40"
  using assms by (simp add: accurate_def)

lemma double_error:
  assumes "accurate (1 / 2 ^ 51) (1 / 2 ^ 1074) f" "\<bar>x\<bar> \<le> 4"
  shows "\<bar>f x - x\<bar> \<le> 1 / 2 ^ 48"
proof -
  from assms have "\<bar>f x - x\<bar> \<le> (1 / 2 ^ 51) * \<bar>x\<bar> + 1 / 2 ^ 1074" by (simp add: accurate_def)
  moreover have "(1 / 2 ^ 1074 :: real) \<le> 1 / 2 ^ 51" by (intro divide_left_mono power_increasing) simp_all
  ultimately show ?thesis using assms(2) by simp
qed

lemma two_pows:
  "(2::real) ^ 19 = 524288" "(2::real) ^ 20 = 1048576" "(2::real) ^ 21 = 2097152"
  "(2::real) ^ 22 = 4194304" "(2::real) ^ 23 = 8388608" "(2::real) ^ 24 = 16777216"
  "(2::real) ^ 25 = 33554432"
  "(2::real) ^ 34 = 17179869184" "(2::real) ^ 40 = 1099511627776" "(2::real) ^ 48 = 281474976710656"
  by simp_all

text \<open>The scalar product of a vector with itself, for a vector of length about one.\<close>

lemma dot_self_error:
  assumes f: "accurate (1 / 2 ^ 24) (1 / 2 ^ 40) ff"
    and lo: "1 / 2 \<le> vx v * vx v + vy v * vy v + vz v * vz v"
    and hi: "vx v * vx v + vy v * vy v + vz v * vz v \<le> 2"
  shows "\<bar>dot ff v v - (vx v * vx v + vy v * vy v + vz v * vz v)\<bar> \<le>
           (vx v * vx v + vy v * vy v + vz v * vz v) * (3 / 2 ^ 24 + 1 / 2 ^ 34)"
proof -
  define A where "A = vx v * vx v"
  define B where "B = vy v * vy v"
  define C where "C = vz v * vz v"
  have nn: "0 \<le> A" "0 \<le> B" "0 \<le> C" by (simp_all add: A_def B_def C_def)
  from lo hi have N: "1 / 2 \<le> A + B + C" "A + B + C \<le> 2" by (simp_all add: A_def B_def C_def)
  define Pa where "Pa = ff A"
  define Pb where "Pb = ff B"
  define Pc where "Pc = ff C"
  define Ta where "Ta = ff (Pa + Pb)"
  define D where "D = ff (Ta + Pc)"
  have pa: "\<bar>Pa - A\<bar> \<le> \<bar>A\<bar> / 2 ^ 24 + 1 / 2 ^ 40"
    unfolding Pa_def using nn N by (intro single_error[OF f]) argo
  have pb: "\<bar>Pb - B\<bar> \<le> \<bar>B\<bar> / 2 ^ 24 + 1 / 2 ^ 40"
    unfolding Pb_def using nn N by (intro single_error[OF f]) argo
  have pc: "\<bar>Pc - C\<bar> \<le> \<bar>C\<bar> / 2 ^ 24 + 1 / 2 ^ 40"
    unfolding Pc_def using nn N by (intro single_error[OF f]) argo
  have "\<bar>Pa + Pb\<bar> \<le> 4" using nn N pa pb unfolding two_pows by argo
  then have ta: "\<bar>Ta - (Pa + Pb)\<bar> \<le> \<bar>Pa + Pb\<bar> / 2 ^ 24 + 1 / 2 ^ 40"
    unfolding Ta_def by (rule single_error[OF f])
  have "\<bar>Ta + Pc\<bar> \<le> 4" using nn N pa pb pc ta unfolding two_pows by argo
  then have d: "\<bar>D - (Ta + Pc)\<bar> \<le> \<bar>Ta + Pc\<bar> / 2 ^ 24 + 1 / 2 ^ 40"
    unfolding D_def by (rule single_error[OF f])
  have "\<bar>D - (A + B + C)\<bar> \<le> (A + B + C) * (3 / 2 ^ 24 + 1 / 2 ^ 34)"
    using nn N pa pb pc ta d unfolding two_pows by argo
  then show ?thesis
    by (simp add: D_def Ta_def Pa_def Pb_def Pc_def A_def B_def C_def dot_def)
qed

text \<open>The square of a rounded number.\<close>

lemma square_error:
  assumes f: "accurate (1 / 2 ^ 24) (1 / 2 ^ 40) ff" and x: "x * x \<le> 2"
  shows "x * x * (1 - 2 / 2 ^ 24) - 5 / 2 ^ 40 \<le> ff x * ff x"
    and "ff x * ff x \<le> x * x * (1 + 2 / 2 ^ 24 + 1 / 2 ^ 34) + 5 / 2 ^ 40"
proof -
  define y where "y = \<bar>x\<bar>"
  define t where "t = ff x - x"
  define xt where "xt = x * t"
  define tt where "tt = t * t"
  define xx where "xx = x * x"
  have y0: "0 \<le> y" by (simp add: y_def)
  have yy: "y * y = xx" by (simp add: y_def xx_def)
  have y2: "y \<le> 2"
  proof (rule ccontr)
    assume "\<not> y \<le> 2"
    then have "2 < y" by simp
    then have "2 * 2 < y * y" by (intro mult_strict_mono) simp_all
    with x yy show False by (simp add: xx_def)
  qed
  then have "\<bar>x\<bar> \<le> 4" by (simp add: y_def)
  from single_error[OF f this] have t: "\<bar>t\<bar> \<le> y / 2 ^ 24 + 1 / 2 ^ 40"
    by (simp add: t_def y_def)
  have "\<bar>xt\<bar> = y * \<bar>t\<bar>" by (simp add: xt_def y_def abs_mult)
  also have "\<dots> \<le> y * (y / 2 ^ 24 + 1 / 2 ^ 40)" using t y0 by (rule mult_left_mono)
  also have "\<dots> = xx / 2 ^ 24 + y / 2 ^ 40" using yy by (simp add: algebra_simps)
  finally have a: "\<bar>xt\<bar> \<le> xx / 2 ^ 24 + y / 2 ^ 40" .
  have "tt = \<bar>t\<bar> * \<bar>t\<bar>" by (simp add: tt_def)
  also have "\<dots> \<le> (y / 2 ^ 24 + 1 / 2 ^ 40) * (y / 2 ^ 24 + 1 / 2 ^ 40)"
    using t by (intro mult_mono) (simp_all add: y0)
  also have "\<dots> = xx / 2 ^ 48 + y / 2 ^ 63 + 1 / 2 ^ 80"
    using yy by (simp add: algebra_simps)
  finally have b: "tt \<le> xx / 2 ^ 48 + y / 2 ^ 63 + 1 / 2 ^ 80" .
  have tt0: "0 \<le> tt" by (simp add: tt_def)
  have xx0: "0 \<le> xx" by (simp add: xx_def)
  have e: "ff x * ff x = xx + 2 * xt + tt"
    by (simp add: t_def xt_def tt_def xx_def algebra_simps)
  have p: "(2::real) ^ 63 = 9223372036854775808"
    "(2::real) ^ 80 = 1208925819614629174706176" by simp_all
  show "x * x * (1 - 2 / 2 ^ 24) - 5 / 2 ^ 40 \<le> ff x * ff x"
    unfolding e xx_def[symmetric] using a b tt0 xx0 y0 y2 unfolding two_pows p by argo
  show "ff x * ff x \<le> x * x * (1 + 2 / 2 ^ 24 + 1 / 2 ^ 34) + 5 / 2 ^ 40"
    unfolding e xx_def[symmetric] using a b tt0 xx0 y0 y2 x unfolding two_pows p xx_def[symmetric] by argo
qed

text \<open>
  The factor by which \<^verbatim>\<open>normalize\<close> multiplies a vector of length about one: its square
  times the squared length of the vector is about one.
\<close>

lemma inverse_length_error:
  assumes f: "accurate (1 / 2 ^ 24) (1 / 2 ^ 40) ff"
    and lo: "1 / 2 \<le> vx v * vx v + vy v * vy v + vz v * vz v"
    and hi: "vx v * vx v + vy v * vy v + vz v * vz v \<le> 2"
    and S: "S = ff (1 / ff (sqrt (dot ff v v)))"
  shows "0 \<le> S" and "S \<le> 3 / 2"
    and "1 - 7 / 2 ^ 24 - 9 / 2 ^ 34 \<le> S * S * (vx v * vx v + vy v * vy v + vz v * vz v)"
    and "S * S * (vx v * vx v + vy v * vy v + vz v * vz v) \<le> 1 + 7 / 2 ^ 24 + 9 / 2 ^ 34"
proof -
  define N where "N = vx v * vx v + vy v * vy v + vz v * vz v"
  define D where "D = dot ff v v"
  define Rz where "Rz = sqrt D"
  define R where "R = ff Rz"
  define Sz where "Sz = 1 / R"
  have Sd: "S = ff Sz" by (simp add: S Sz_def R_def Rz_def D_def)
  from lo hi have N: "1 / 2 \<le> N" "N \<le> 2" by (simp_all add: N_def)
  from dot_self_error[OF f lo hi] have d: "\<bar>D - N\<bar> \<le> N * (3 / 2 ^ 24 + 1 / 2 ^ 34)"
    by (simp add: D_def N_def)
  have Db: "49 / 100 \<le> D" "D \<le> 9 / 4" using d N unfolding two_pows by argo+
  then have D0: "0 \<le> D" by simp
  have RzRz: "Rz * Rz = D" using D0 by (simp add: Rz_def)
  have "(7 / 10)\<^sup>2 \<le> D" using Db(1) by (simp add: power2_eq_square)
  then have Rzlo: "7 / 10 \<le> Rz" unfolding Rz_def by (rule real_le_rsqrt)
  have "D \<le> (3 / 2)\<^sup>2" using Db(2) by (simp add: power2_eq_square)
  then have Rzhi: "Rz \<le> 3 / 2" unfolding Rz_def by (intro real_le_lsqrt) simp_all
  from Rzlo Rzhi have "\<bar>Rz\<bar> \<le> 4" by simp
  from single_error[OF f this] have r: "\<bar>R - Rz\<bar> \<le> \<bar>Rz\<bar> / 2 ^ 24 + 1 / 2 ^ 40"
    by (simp add: R_def)
  have Rb: "69 / 100 \<le> R" "R \<le> 151 / 100" using r Rzlo Rzhi unfolding two_pows by argo+
  then have R0: "0 < R" by simp
  have SzR: "Sz * R = 1" using R0 by (simp add: Sz_def)
  have Sz0: "0 < Sz" using R0 by (simp add: Sz_def)
  have Szhi: "Sz \<le> 100 / 69" unfolding Sz_def using Rb(1) R0 by (simp add: field_simps)
  from Sz0 Szhi have "\<bar>Sz\<bar> \<le> 4" by simp
  from single_error[OF f this] have s: "\<bar>S - Sz\<bar> \<le> \<bar>Sz\<bar> / 2 ^ 24 + 1 / 2 ^ 40"
    by (simp add: Sd)
  have Szlo: "100 / 151 \<le> Sz" unfolding Sz_def using Rb(2) R0 by (simp add: field_simps)
  show S0: "0 \<le> S" using s Szlo Szhi unfolding two_pows by argo
  show Shi: "S \<le> 3 / 2" using s Szlo Szhi unfolding two_pows by argo
  define SR where "SR = S * R"
  define Q where "Q = S * Rz"
  define QQ where "QQ = Q * Q"
  define SS where "SS = S * S"
  define K where "K = SS * N"
  define SSD where "SSD = SS * D"
  have "\<bar>SR - 1\<bar> = \<bar>S - Sz\<bar> * R"
  proof -
    have "SR - 1 = (S - Sz) * R" using SzR by (simp add: SR_def algebra_simps)
    then show ?thesis using R0 by (simp add: abs_mult)
  qed
  also have "\<dots> \<le> (\<bar>Sz\<bar> / 2 ^ 24 + 1 / 2 ^ 40) * R" using s R0 by (intro mult_right_mono) simp_all
  also have "\<dots> = 1 / 2 ^ 24 + R / 2 ^ 40" using SzR Sz0 by (simp add: algebra_simps)
  finally have sr: "\<bar>SR - 1\<bar> \<le> 1 / 2 ^ 24 + R / 2 ^ 40" .
  have "\<bar>SR - Q\<bar> = S * \<bar>R - Rz\<bar>"
  proof -
    have "SR - Q = S * (R - Rz)" by (simp add: SR_def Q_def algebra_simps)
    then show ?thesis using S0 by (simp add: abs_mult)
  qed
  also have "\<dots> \<le> S * (\<bar>Rz\<bar> / 2 ^ 24 + 1 / 2 ^ 40)" using r S0 by (intro mult_left_mono)
  also have "\<dots> = Q / 2 ^ 24 + S / 2 ^ 40" using Rzlo by (simp add: Q_def algebra_simps)
  finally have q: "\<bar>SR - Q\<bar> \<le> Q / 2 ^ 24 + S / 2 ^ 40" .
  have Qb: "1 - 2 / 2 ^ 24 - 3 / 2 ^ 34 \<le> Q" "Q \<le> 1 + 2 / 2 ^ 24 + 3 / 2 ^ 34"
    using sr q Rb S0 Shi unfolding two_pows by argo+
  have "(1 - 2 / 2 ^ 24 - 3 / 2 ^ 34) * (1 - 2 / 2 ^ 24 - 3 / 2 ^ 34) \<le> Q * Q"
    using Qb(1) by (intro mult_mono) simp_all
  then have QQlo: "1 - 4 / 2 ^ 24 - 6 / 2 ^ 34 \<le> QQ" unfolding QQ_def by simp
  have "Q * Q \<le> (1 + 2 / 2 ^ 24 + 3 / 2 ^ 34) * (1 + 2 / 2 ^ 24 + 3 / 2 ^ 34)"
    using Qb by (intro mult_mono) simp_all
  then have QQhi: "QQ \<le> 1 + 4 / 2 ^ 24 + 7 / 2 ^ 34" unfolding QQ_def by simp
  have QQ: "QQ = SSD"
    using RzRz by (simp add: QQ_def Q_def SSD_def SS_def algebra_simps)
  have SS0: "0 \<le> SS" by (simp add: SS_def)
  have "\<bar>SSD - K\<bar> = SS * \<bar>D - N\<bar>"
  proof -
    have "SSD - K = SS * (D - N)" by (simp add: SSD_def K_def algebra_simps)
    then show ?thesis using SS0 by (simp add: abs_mult)
  qed
  also have "\<dots> \<le> SS * (N * (3 / 2 ^ 24 + 1 / 2 ^ 34))" using d SS0 by (intro mult_left_mono)
  also have "\<dots> = K * (3 / 2 ^ 24 + 1 / 2 ^ 34)" by (simp add: K_def algebra_simps)
  finally have k: "\<bar>SSD - K\<bar> \<le> K * (3 / 2 ^ 24 + 1 / 2 ^ 34)" .
  have Kb: "1 - 7 / 2 ^ 24 - 9 / 2 ^ 34 \<le> K" "K \<le> 1 + 7 / 2 ^ 24 + 9 / 2 ^ 34"
    using k QQlo QQhi unfolding QQ two_pows by argo+
  show "1 - 7 / 2 ^ 24 - 9 / 2 ^ 34 \<le> S * S * (vx v * vx v + vy v * vy v + vz v * vz v)"
    using Kb(1) by (simp add: K_def SS_def N_def)
  show "S * S * (vx v * vx v + vy v * vy v + vz v * vz v) \<le> 1 + 7 / 2 ^ 24 + 9 / 2 ^ 34"
    using Kb(2) by (simp add: K_def SS_def N_def)
qed

text \<open>The squared length of a normalized vector.\<close>

lemma normalize_square:
  assumes f: "accurate (1 / 2 ^ 24) (1 / 2 ^ 40) ff"
    and lo: "1 / 2 \<le> vx v * vx v + vy v * vy v + vz v * vz v"
    and hi: "vx v * vx v + vy v * vy v + vz v * vz v \<le> 2"
    and w: "w = normalize ff v"
  shows "1 - 9 / 2 ^ 24 - 12 / 2 ^ 34 \<le> vx w * vx w + vy w * vy w + vz w * vz w"
    and "vx w * vx w + vy w * vy w + vz w * vz w \<le> 1 + 9 / 2 ^ 24 + 12 / 2 ^ 34"
proof -
  define S where "S = ff (1 / ff (sqrt (dot ff v v)))"
  define xa where "xa = (vx v * S) * (vx v * S)"
  define xb where "xb = (vy v * S) * (vy v * S)"
  define xc where "xc = (vz v * S) * (vz v * S)"
  define K where "K = S * S * (vx v * vx v + vy v * vy v + vz v * vz v)"
  note s = inverse_length_error[OF f lo hi S_def]
  have K: "K = xa + xb + xc" by (simp add: K_def xa_def xb_def xc_def algebra_simps)
  have nn: "0 \<le> xa" "0 \<le> xb" "0 \<le> xc" by (simp_all add: xa_def xb_def xc_def)
  have Kb: "1 - 7 / 2 ^ 24 - 9 / 2 ^ 34 \<le> K" "K \<le> 1 + 7 / 2 ^ 24 + 9 / 2 ^ 34"
    using s(3,4) by (simp_all add: K_def)
  have le2: "xa \<le> 2" "xb \<le> 2" "xc \<le> 2" using nn K Kb(2) unfolding two_pows by argo+
  define ya where "ya = ff (vx v * S) * ff (vx v * S)"
  define yb where "yb = ff (vy v * S) * ff (vy v * S)"
  define yc where "yc = ff (vz v * S) * ff (vz v * S)"
  have a: "xa * (1 - 2 / 2 ^ 24) - 5 / 2 ^ 40 \<le> ya" "ya \<le> xa * (1 + 2 / 2 ^ 24 + 1 / 2 ^ 34) + 5 / 2 ^ 40"
    using square_error[OF f, of "vx v * S"] le2(1) by (simp_all add: xa_def ya_def)
  have b: "xb * (1 - 2 / 2 ^ 24) - 5 / 2 ^ 40 \<le> yb" "yb \<le> xb * (1 + 2 / 2 ^ 24 + 1 / 2 ^ 34) + 5 / 2 ^ 40"
    using square_error[OF f, of "vy v * S"] le2(2) by (simp_all add: xb_def yb_def)
  have c: "xc * (1 - 2 / 2 ^ 24) - 5 / 2 ^ 40 \<le> yc" "yc \<le> xc * (1 + 2 / 2 ^ 24 + 1 / 2 ^ 34) + 5 / 2 ^ 40"
    using square_error[OF f, of "vz v * S"] le2(3) by (simp_all add: xc_def yc_def)
  have e: "vx w * vx w + vy w * vy w + vz w * vz w = ya + yb + yc"
    by (simp add: w normalize_def Let_def S_def ya_def yb_def yc_def)
  show "1 - 9 / 2 ^ 24 - 12 / 2 ^ 34 \<le> vx w * vx w + vy w * vy w + vz w * vz w"
    unfolding e using a b c K Kb nn unfolding two_pows by argo
  show "vx w * vx w + vy w * vy w + vz w * vz w \<le> 1 + 9 / 2 ^ 24 + 12 / 2 ^ 34"
    unfolding e using a b c K Kb nn unfolding two_pows by argo
qed

lemma magnitude_near_one:
  assumes "1 - 9 / 2 ^ 24 - 12 / 2 ^ 34 \<le> vx w * vx w + vy w * vy w + vz w * vz w"
    and "vx w * vx w + vy w * vy w + vz w * vz w \<le> 1 + 9 / 2 ^ 24 + 12 / 2 ^ 34"
  shows "\<bar>magnitude w - 1\<bar> \<le> 5 / 2 ^ 24"
proof -
  define M where "M = vx w * vx w + vy w * vy w + vz w * vz w"
  from assms have M: "1 - 9 / 2 ^ 24 - 12 / 2 ^ 34 \<le> M" "M \<le> 1 + 9 / 2 ^ 24 + 12 / 2 ^ 34"
    by (simp_all add: M_def)
  have "(1 - 5 / 2 ^ 24)\<^sup>2 \<le> M" using M(1) by (simp add: power2_eq_square)
  then have l: "1 - 5 / 2 ^ 24 \<le> sqrt M" by (rule real_le_rsqrt)
  have "M \<le> (1 + 5 / 2 ^ 24)\<^sup>2" using M(2) by (simp add: power2_eq_square)
  then have h: "sqrt M \<le> 1 + 5 / 2 ^ 24" by (intro real_le_lsqrt) simp_all
  from l h have "\<bar>sqrt M - 1\<bar> \<le> 5 / 2 ^ 24" unfolding two_pows by argo
  then show ?thesis by (simp add: magnitude_def M_def)
qed

text \<open>The length that \<^verbatim>\<open>glm.length\<close> computes for a vector of length about one.\<close>

lemma vlength_near_one:
  assumes f: "accurate (1 / 2 ^ 24) (1 / 2 ^ 40) ff"
    and lo: "1 - 9 / 2 ^ 24 - 12 / 2 ^ 34 \<le> vx w * vx w + vy w * vy w + vz w * vz w"
    and hi: "vx w * vx w + vy w * vy w + vz w * vz w \<le> 1 + 9 / 2 ^ 24 + 12 / 2 ^ 34"
  shows "\<bar>vlength ff w - 1\<bar> \<le> 1 / 2 ^ 21"
proof -
  define M where "M = vx w * vx w + vy w * vy w + vz w * vz w"
  define D where "D = dot ff w w"
  define Lz where "Lz = sqrt D"
  from lo hi have M: "1 - 9 / 2 ^ 24 - 12 / 2 ^ 34 \<le> M" "M \<le> 1 + 9 / 2 ^ 24 + 12 / 2 ^ 34"
    by (simp_all add: M_def)
  have M2: "1 / 2 \<le> M" "M \<le> 2" using M unfolding two_pows by argo+
  from dot_self_error[OF f M2[unfolded M_def]] have d: "\<bar>D - M\<bar> \<le> M * (3 / 2 ^ 24 + 1 / 2 ^ 34)"
    by (simp add: D_def M_def)
  have Db: "1 - 12 / 2 ^ 24 - 14 / 2 ^ 34 \<le> D" "D \<le> 1 + 12 / 2 ^ 24 + 14 / 2 ^ 34"
    using d M unfolding two_pows by argo+
  have "(1 - 6 / 2 ^ 24 - 8 / 2 ^ 34)\<^sup>2 \<le> D"
  proof -
    have "(1 - 6 / 2 ^ 24 - 8 / 2 ^ 34)\<^sup>2 \<le> (1 - 12 / 2 ^ 24 - 14 / 2 ^ 34 :: real)"
      by (simp add: power2_eq_square)
    with Db(1) show ?thesis by linarith
  qed
  then have l: "1 - 6 / 2 ^ 24 - 8 / 2 ^ 34 \<le> Lz" unfolding Lz_def by (rule real_le_rsqrt)
  have "D \<le> (1 + 6 / 2 ^ 24 + 7 / 2 ^ 34)\<^sup>2"
  proof -
    have "(1 + 12 / 2 ^ 24 + 14 / 2 ^ 34 :: real) \<le> (1 + 6 / 2 ^ 24 + 7 / 2 ^ 34)\<^sup>2"
      by (simp add: power2_eq_square)
    with Db(2) show ?thesis by linarith
  qed
  then have h: "Lz \<le> 1 + 6 / 2 ^ 24 + 7 / 2 ^ 34" unfolding Lz_def by (intro real_le_lsqrt) simp_all
  have "\<bar>Lz\<bar> \<le> 4" using l h unfolding two_pows by argo
  from single_error[OF f this] have e: "\<bar>ff Lz - Lz\<bar> \<le> \<bar>Lz\<bar> / 2 ^ 24 + 1 / 2 ^ 40" .
  have "\<bar>ff Lz - 1\<bar> \<le> 1 / 2 ^ 21" using e l h unfolding two_pows by argo
  then show ?thesis by (simp add: vlength_def Lz_def D_def)
qed

text \<open>The components of the direction before it is normalized.\<close>

lemma product_error:
  assumes d: "accurate (1 / 2 ^ 51) (1 / 2 ^ 1074) fd"
    and f: "accurate (1 / 2 ^ 24) (1 / 2 ^ 40) ff"
    and p: "\<bar>p\<bar> \<le> 1" and q: "\<bar>q\<bar> \<le> 1"
  shows "\<bar>ff (fd (fd p * fd q)) - p * q\<bar> \<le> 1 / 2 ^ 24 + 1 / 2 ^ 34"
proof -
  define P where "P = fd p"
  define Q where "Q = fd q"
  define PQ where "PQ = P * Q"
  define pq where "pq = p * q"
  define X where "X = fd PQ"
  define Y where "Y = ff X"
  define ea where "ea = (P - p) * Q"
  define eb where "eb = p * (Q - q)"
  from p have "\<bar>p\<bar> \<le> 4" by simp
  from double_error[OF d this] have a: "\<bar>P - p\<bar> \<le> 1 / 2 ^ 48" by (simp add: P_def)
  from q have "\<bar>q\<bar> \<le> 4" by simp
  from double_error[OF d this] have b: "\<bar>Q - q\<bar> \<le> 1 / 2 ^ 48" by (simp add: Q_def)
  have Qb: "\<bar>Q\<bar> \<le> 2" using b q unfolding two_pows by argo
  have "\<bar>ea\<bar> = \<bar>P - p\<bar> * \<bar>Q\<bar>" by (simp add: ea_def abs_mult)
  also have "\<dots> \<le> (1 / 2 ^ 48) * 2" using a Qb by (intro mult_mono) simp_all
  finally have ea: "\<bar>ea\<bar> \<le> 2 / 2 ^ 48" by simp
  have "\<bar>eb\<bar> = \<bar>p\<bar> * \<bar>Q - q\<bar>" by (simp add: eb_def abs_mult)
  also have "\<dots> \<le> 1 * (1 / 2 ^ 48)" using b p by (intro mult_mono) simp_all
  finally have eb: "\<bar>eb\<bar> \<le> 1 / 2 ^ 48" by simp
  have "\<bar>pq\<bar> = \<bar>p\<bar> * \<bar>q\<bar>" by (simp add: pq_def abs_mult)
  also have "\<dots> \<le> 1 * 1" using p q by (intro mult_mono) simp_all
  finally have pq: "\<bar>pq\<bar> \<le> 1" by simp
  have s: "PQ = pq + ea + eb" by (simp add: PQ_def pq_def ea_def eb_def algebra_simps)
  have "\<bar>PQ\<bar> \<le> 4" using s ea eb pq unfolding two_pows by argo
  from double_error[OF d this] have x: "\<bar>X - PQ\<bar> \<le> 1 / 2 ^ 48" by (simp add: X_def)
  have "\<bar>X\<bar> \<le> 4" using x s ea eb pq unfolding two_pows by argo
  from single_error[OF f this] have y: "\<bar>Y - X\<bar> \<le> \<bar>X\<bar> / 2 ^ 24 + 1 / 2 ^ 40" by (simp add: Y_def)
  have "\<bar>Y - pq\<bar> \<le> 1 / 2 ^ 24 + 1 / 2 ^ 34"
    using y x s ea eb pq unfolding two_pows by argo
  then show ?thesis by (simp add: Y_def X_def PQ_def P_def Q_def pq_def)
qed

lemma factor_error:
  assumes d: "accurate (1 / 2 ^ 51) (1 / 2 ^ 1074) fd"
    and f: "accurate (1 / 2 ^ 24) (1 / 2 ^ 40) ff"
    and p: "\<bar>p\<bar> \<le> 1"
  shows "\<bar>ff (fd p) - p\<bar> \<le> 1 / 2 ^ 24 + 1 / 2 ^ 34"
proof -
  define X where "X = fd p"
  define Y where "Y = ff X"
  from p have "\<bar>p\<bar> \<le> 4" by simp
  from double_error[OF d this] have x: "\<bar>X - p\<bar> \<le> 1 / 2 ^ 48" by (simp add: X_def)
  have "\<bar>X\<bar> \<le> 4" using x p unfolding two_pows by argo
  from single_error[OF f this] have y: "\<bar>Y - X\<bar> \<le> \<bar>X\<bar> / 2 ^ 24 + 1 / 2 ^ 40" by (simp add: Y_def)
  have "\<bar>Y - p\<bar> \<le> 1 / 2 ^ 24 + 1 / 2 ^ 34" using y x p unfolding two_pows by argo
  then show ?thesis by (simp add: Y_def X_def)
qed

lemma square_shift:
  fixes d w :: real
  assumes w: "w * w \<le> 1" and e: "\<bar>d - w\<bar> \<le> 1 / 2 ^ 24 + 1 / 2 ^ 34"
  shows "\<bar>d * d - w * w\<bar> \<le> 2 / 2 ^ 24 + 3 / 2 ^ 34"
proof -
  define t where "t = d - w"
  define wt where "wt = w * t"
  define tt where "tt = t * t"
  have "w\<^sup>2 \<le> 1" using w by (simp add: power2_eq_square)
  then have w1: "\<bar>w\<bar> \<le> 1" by (simp add: abs_square_le_1)
  from e have t: "\<bar>t\<bar> \<le> 1 / 2 ^ 24 + 1 / 2 ^ 34" by (simp add: t_def)
  have "\<bar>wt\<bar> = \<bar>w\<bar> * \<bar>t\<bar>" by (simp add: wt_def abs_mult)
  also have "\<dots> \<le> 1 * (1 / 2 ^ 24 + 1 / 2 ^ 34)" using w1 t by (intro mult_mono) simp_all
  finally have a: "\<bar>wt\<bar> \<le> 1 / 2 ^ 24 + 1 / 2 ^ 34" by simp
  have "tt = \<bar>t\<bar> * \<bar>t\<bar>" by (simp add: tt_def)
  also have "\<dots> \<le> (1 / 2 ^ 24 + 1 / 2 ^ 34) * (1 / 2 ^ 24 + 1 / 2 ^ 34)"
    using t by (intro mult_mono) simp_all
  also have "\<dots> \<le> 1 / 2 ^ 40" by simp
  finally have b: "tt \<le> 1 / 2 ^ 40" .
  have c: "0 \<le> tt" by (simp add: tt_def)
  have "d * d - w * w = 2 * wt + tt" by (simp add: t_def wt_def tt_def algebra_simps)
  moreover have "\<bar>2 * wt + tt\<bar> \<le> 2 / 2 ^ 24 + 3 / 2 ^ 34" using a b c unfolding two_pows by argo
  ultimately show ?thesis by simp
qed

lemma near_unit:
  fixes da db dc wa wb wc :: real
  assumes unit: "wa * wa + wb * wb + wc * wc = 1"
    and a: "\<bar>da - wa\<bar> \<le> 1 / 2 ^ 24 + 1 / 2 ^ 34"
    and b: "\<bar>db - wb\<bar> \<le> 1 / 2 ^ 24 + 1 / 2 ^ 34"
    and c: "\<bar>dc - wc\<bar> \<le> 1 / 2 ^ 24 + 1 / 2 ^ 34"
  shows "1 - 6 / 2 ^ 24 - 9 / 2 ^ 34 \<le> da * da + db * db + dc * dc"
    and "da * da + db * db + dc * dc \<le> 1 + 6 / 2 ^ 24 + 9 / 2 ^ 34"
proof -
  define A where "A = wa * wa"
  define B where "B = wb * wb"
  define C where "C = wc * wc"
  define DA where "DA = da * da"
  define DB where "DB = db * db"
  define DC where "DC = dc * dc"
  have nn: "0 \<le> A" "0 \<le> B" "0 \<le> C" by (simp_all add: A_def B_def C_def)
  from unit have u: "A + B + C = 1" by (simp add: A_def B_def C_def)
  from nn u have le: "A \<le> 1" "B \<le> 1" "C \<le> 1" by linarith+
  from square_shift[OF le(1)[unfolded A_def] a] have x: "\<bar>DA - A\<bar> \<le> 2 / 2 ^ 24 + 3 / 2 ^ 34"
    by (simp add: DA_def A_def)
  from square_shift[OF le(2)[unfolded B_def] b] have y: "\<bar>DB - B\<bar> \<le> 2 / 2 ^ 24 + 3 / 2 ^ 34"
    by (simp add: DB_def B_def)
  from square_shift[OF le(3)[unfolded C_def] c] have z: "\<bar>DC - C\<bar> \<le> 2 / 2 ^ 24 + 3 / 2 ^ 34"
    by (simp add: DC_def C_def)
  show "1 - 6 / 2 ^ 24 - 9 / 2 ^ 34 \<le> da * da + db * db + dc * dc"
    unfolding DA_def[symmetric] DB_def[symmetric] DC_def[symmetric]
    using x y z u unfolding two_pows by argo
  show "da * da + db * db + dc * dc \<le> 1 + 6 / 2 ^ 24 + 9 / 2 ^ 34"
    unfolding DA_def[symmetric] DB_def[symmetric] DC_def[symmetric]
    using x y z u unfolding two_pows by argo
qed

text \<open>The factor by which a vector of length about one is multiplied is about one.\<close>

lemma scale_near_one:
  fixes S N :: real
  assumes S: "0 \<le> S"
    and K: "1 - 7 / 2 ^ 24 - 9 / 2 ^ 34 \<le> S * S * N" "S * S * N \<le> 1 + 7 / 2 ^ 24 + 9 / 2 ^ 34"
    and N: "1 - 6 / 2 ^ 24 - 9 / 2 ^ 34 \<le> N" "N \<le> 1 + 6 / 2 ^ 24 + 9 / 2 ^ 34"
  shows "\<bar>S - 1\<bar> \<le> 7 / 2 ^ 24"
proof -
  define SS where "SS = S * S"
  define K where "K = SS * N"
  have SS0: "0 \<le> SS" by (simp add: SS_def)
  have lo: "SS * (1 - 6 / 2 ^ 24 - 9 / 2 ^ 34) \<le> K"
    unfolding K_def using N(1) SS0 by (rule mult_left_mono)
  have hi: "K \<le> SS * (1 + 6 / 2 ^ 24 + 9 / 2 ^ 34)"
    unfolding K_def using N(2) SS0 by (rule mult_left_mono)
  from assms(2,3) have Kb: "1 - 7 / 2 ^ 24 - 9 / 2 ^ 34 \<le> K" "K \<le> 1 + 7 / 2 ^ 24 + 9 / 2 ^ 34"
    by (simp_all add: K_def SS_def)
  have SSb: "1 - 27 / 2 ^ 25 \<le> SS" "SS \<le> 1 + 27 / 2 ^ 25"
    using lo hi Kb SS0 unfolding two_pows by argo+
  have eq: "S = sqrt SS" using S by (simp add: SS_def)
  have "(1 - 7 / 2 ^ 24)\<^sup>2 \<le> SS"
  proof -
    have "(1 - 7 / 2 ^ 24)\<^sup>2 \<le> (1 - 27 / 2 ^ 25 :: real)" by (simp add: power2_eq_square)
    with SSb(1) show ?thesis by linarith
  qed
  then have l: "1 - 7 / 2 ^ 24 \<le> S" unfolding eq by (rule real_le_rsqrt)
  have "SS \<le> (1 + 7 / 2 ^ 24)\<^sup>2"
  proof -
    have "(1 + 27 / 2 ^ 25 :: real) \<le> (1 + 7 / 2 ^ 24)\<^sup>2" by (simp add: power2_eq_square)
    with SSb(2) show ?thesis by linarith
  qed
  then have h: "S \<le> 1 + 7 / 2 ^ 24" unfolding eq by (intro real_le_lsqrt) simp_all
  from l h show ?thesis unfolding two_pows by argo
qed

lemma component_close:
  fixes d w S :: real
  assumes f: "accurate (1 / 2 ^ 24) (1 / 2 ^ 40) ff"
    and e: "\<bar>d - w\<bar> \<le> 1 / 2 ^ 24 + 1 / 2 ^ 34" and w: "\<bar>w\<bar> \<le> 1"
    and S: "\<bar>S - 1\<bar> \<le> 7 / 2 ^ 24"
  shows "\<bar>ff (d * S) - w\<bar> \<le> 10 / 2 ^ 24"
proof -
  define y where "y = \<bar>d\<bar>"
  define g where "g = d * (S - 1)"
  define X where "X = d * S"
  have y: "0 \<le> y" "y \<le> 2" using e w unfolding y_def two_pows by argo+
  have yb: "y \<le> 1 + 1 / 2 ^ 24 + 1 / 2 ^ 34" using e w unfolding y_def two_pows by argo
  have "\<bar>g\<bar> = y * \<bar>S - 1\<bar>" by (simp add: g_def y_def abs_mult)
  also have "\<dots> \<le> (1 + 1 / 2 ^ 24 + 1 / 2 ^ 34) * (7 / 2 ^ 24)" using yb S y(1) by (intro mult_mono) simp_all
  also have "\<dots> \<le> 7 / 2 ^ 24 + 1 / 2 ^ 34" by simp
  finally have g: "\<bar>g\<bar> \<le> 7 / 2 ^ 24 + 1 / 2 ^ 34" .
  have X: "X = d + g" by (simp add: X_def g_def algebra_simps)
  have "\<bar>X\<bar> \<le> 4" using X g e w unfolding two_pows by argo
  from single_error[OF f this] have r: "\<bar>ff X - X\<bar> \<le> \<bar>X\<bar> / 2 ^ 24 + 1 / 2 ^ 40" .
  have "\<bar>ff X - w\<bar> \<le> 10 / 2 ^ 24" using r X g e w unfolding two_pows by argo
  then show ?thesis by (simp add: X_def)
qed

lemma unit_factors:
  fixes a b :: real
  shows "\<bar>cos a\<bar> \<le> 1" "\<bar>sin a\<bar> \<le> 1" "\<bar>cos a * cos b\<bar> \<le> 1" "\<bar>sin a * cos b\<bar> \<le> 1"
proof -
  show c: "\<bar>cos a\<bar> \<le> 1" for a :: real by (rule abs_cos_le_one)
  show s: "\<bar>sin a\<bar> \<le> 1" for a :: real by (rule abs_sin_le_one)
  have "\<bar>cos a * cos b\<bar> = \<bar>cos a\<bar> * \<bar>cos b\<bar>" by (simp add: abs_mult)
  also have "\<dots> \<le> 1 * 1" by (intro mult_mono c) simp_all
  finally show "\<bar>cos a * cos b\<bar> \<le> 1" by simp
  have "\<bar>sin a * cos b\<bar> = \<bar>sin a\<bar> * \<bar>cos b\<bar>" by (simp add: abs_mult)
  also have "\<dots> \<le> 1 * 1" by (intro mult_mono c s) simp_all
  finally show "\<bar>sin a * cos b\<bar> \<le> 1" by simp
qed

lemma forward_analysis:
  assumes d: "accurate (1 / 2 ^ 51) (1 / 2 ^ 1074) fd"
    and f: "accurate (1 / 2 ^ 24) (1 / 2 ^ 40) ff"
    and a: "a = radians fd (yaw cam)" and b: "b = radians fd (pitch cam)"
    and F: "F = get_forward_vector fd ff cam"
  shows "\<bar>magnitude F - 1\<bar> \<le> 5 / 2 ^ 24"
    and "\<bar>vlength ff F - 1\<bar> \<le> 1 / 2 ^ 21"
    and "\<bar>vx F - cos a * cos b\<bar> \<le> 10 / 2 ^ 24"
    and "\<bar>vy F - sin b\<bar> \<le> 10 / 2 ^ 24"
    and "\<bar>vz F - sin a * cos b\<bar> \<le> 10 / 2 ^ 24"
proof -
  define dir where "dir = Vec3 (ff (fd (fd (cos a) * fd (cos b)))) (ff (fd (sin b)))
                               (ff (fd (fd (sin a) * fd (cos b))))"
  define S where "S = ff (1 / ff (sqrt (dot ff dir dir)))"
  have Fn: "F = normalize ff dir"
    by (simp add: F get_forward_vector_def Let_def dir_def a b)
  have ex: "\<bar>vx dir - cos a * cos b\<bar> \<le> 1 / 2 ^ 24 + 1 / 2 ^ 34"
    using product_error[OF d f unit_factors(1) unit_factors(1), of a b] by (simp add: dir_def)
  have ey: "\<bar>vy dir - sin b\<bar> \<le> 1 / 2 ^ 24 + 1 / 2 ^ 34"
    using factor_error[OF d f unit_factors(2), of b] by (simp add: dir_def)
  have ez: "\<bar>vz dir - sin a * cos b\<bar> \<le> 1 / 2 ^ 24 + 1 / 2 ^ 34"
    using product_error[OF d f unit_factors(2) unit_factors(1), of a b] by (simp add: dir_def)
  note n = near_unit[OF dot_direction[of a b] ex ey ez]
  have lo: "1 / 2 \<le> vx dir * vx dir + vy dir * vy dir + vz dir * vz dir"
    using n(1) unfolding two_pows by argo
  have hi: "vx dir * vx dir + vy dir * vy dir + vz dir * vz dir \<le> 2"
    using n(2) unfolding two_pows by argo
  note sq = normalize_square[OF f lo hi Fn]
  show "\<bar>magnitude F - 1\<bar> \<le> 5 / 2 ^ 24" by (rule magnitude_near_one[OF sq])
  show "\<bar>vlength ff F - 1\<bar> \<le> 1 / 2 ^ 21" by (rule vlength_near_one[OF f sq])
  note s = inverse_length_error[OF f lo hi S_def]
  have S1: "\<bar>S - 1\<bar> \<le> 7 / 2 ^ 24" by (rule scale_near_one[OF s(1) s(3) s(4) n])
  have c: "vx F = ff (vx dir * S)" "vy F = ff (vy dir * S)" "vz F = ff (vz dir * S)"
    by (simp_all add: Fn normalize_def Let_def S_def)
  show "\<bar>vx F - cos a * cos b\<bar> \<le> 10 / 2 ^ 24"
    unfolding c by (rule component_close[OF f ex unit_factors(3) S1])
  show "\<bar>vy F - sin b\<bar> \<le> 10 / 2 ^ 24"
    unfolding c by (rule component_close[OF f ey unit_factors(2) S1])
  show "\<bar>vz F - sin a * cos b\<bar> \<le> 10 / 2 ^ 24"
    unfolding c by (rule component_close[OF f ez unit_factors(4) S1])
qed

text \<open>Rounding to \<open>p\<close> significant bits is accurate to \<open>2 ^ - p\<close>.\<close>

lemma round_half_even_error: "\<bar>real_of_int (round_half_even q) - q\<bar> \<le> 1 / 2"
proof -
  define n where "n = \<lfloor>q\<rfloor>"
  define d where "d = q - of_int n"
  have d: "0 \<le> d" "d < 1" unfolding d_def n_def by linarith+
  have q: "q = of_int n + d" by (simp add: d_def)
  have "round_half_even q = n \<and> d \<le> 1 / 2 \<or> round_half_even q = n + 1 \<and> 1 / 2 \<le> d"
    unfolding round_half_even_def Let_def n_def[symmetric] d_def[symmetric] by auto
  then show ?thesis using d q by auto
qed

lemma round_to_error:
  assumes p: "0 < p"
  shows "\<bar>round_to p x - x\<bar> \<le> \<bar>x\<bar> / 2 ^ p"
proof (cases "x = 0")
  case True
  then show ?thesis by (simp add: round_to_def)
next
  case False
  define k where "k = \<lfloor>log 2 \<bar>x\<bar>\<rfloor>"
  define u :: real where "u = 2 powr real_of_int (k - int p + 1)"
  define q where "q = x / u"
  have u: "0 < u" by (simp add: u_def)
  from False have "0 < \<bar>x\<bar>" by simp
  from log2_binade[OF this] have b: "2 powr real_of_int k \<le> \<bar>x\<bar>" by (simp add: k_def)
  have rt: "round_to p x = real_of_int (round_half_even q) * u"
    using False by (simp add: round_to_def Let_def k_def u_def q_def)
  have x: "q * u = x" using u by (simp add: q_def)
  have "round_to p x - x = (real_of_int (round_half_even q) - q) * u"
    unfolding rt by (simp add: left_diff_distrib x)
  then have "\<bar>round_to p x - x\<bar> = \<bar>real_of_int (round_half_even q) - q\<bar> * u"
    using u by (simp add: abs_mult)
  also have "\<dots> \<le> (1 / 2) * u" using round_half_even_error u by (intro mult_right_mono) simp_all
  also have "\<dots> = 2 powr real_of_int k / 2 ^ p"
  proof -
    have "real_of_int (k - int p + 1) = real_of_int k - real p + 1" by simp
    then have "u = 2 powr real_of_int k / 2 powr real p * 2"
      unfolding u_def by (simp add: powr_diff powr_add)
    also have "(2::real) powr real p = 2 ^ p" by (simp add: powr_realpow)
    finally show ?thesis by simp
  qed
  also have "\<dots> \<le> \<bar>x\<bar> / 2 ^ p" using b by (simp add: divide_right_mono)
  finally show ?thesis .
qed

lemma accurate_round_to:
  assumes "0 < p" "0 \<le> \<eta>"
  shows "accurate (1 / 2 ^ p) \<eta> (round_to p)"
  unfolding accurate_def
proof (intro allI impI)
  fix x :: real
  from round_to_error[OF assms(1), of x] assms(2)
  show "\<bar>round_to p x - x\<bar> \<le> 1 / 2 ^ p * \<bar>x\<bar> + \<eta>" by simp
qed

section \<open>Vertex indices out of range\<close>

text \<open>
  Claim C1, as the code has it. The loader never compares an index with the vertex count; it
  indexes the position table, a Python list of \<open>max 0 V\<close> rows, so an index fails exactly when
  the list has no such row. For a face line among the \<open>F\<close> that are read whose leading count
  reads as 3: if one of its three indices is at least \<open>max 0 V\<close> or below \<open>- max 0 V\<close>, the
  loader returns the "no mesh" value. An index from \<open>- V\<close> to \<open>- 1\<close> is accepted and counts
  from the end of the table, and a line with another leading count is skipped before its
  indices are read.
\<close>

theorem index_out_of_range_fails:
  assumes counts: "read_counts lines = Inr (V, F)"
    and k: "0 \<le> k" "k < F"
    and parts: "face_record lines V k = Inr parts"
    and tri: "field_int parts 0 = Inr 3"
    and j: "j \<in> {1, 2, 3}"
    and idx: "field_int parts j = Inr idx"
    and out: "idx < - max 0 V \<or> max 0 V \<le> idx"
  shows "returned (load_custom_off fd ff (Lines lines) cb) = None"
proof (rule ccontr)
  assume "returned (load_custom_off fd ff (Lines lines) cb) \<noteq> None"
  then obtain positions colors where
    "returned (load_custom_off fd ff (Lines lines) cb) = Some (positions, colors)"
    by auto
  from load_success[OF this] counts obtain vp st where
    vp: "read_vertices fd lines (py_range V) [] = Inr vp"
    and l: "faces_loop fd lines V F vp cb (py_range F)
          \<lparr>final_vertices = [], final_colors = [], calls = []\<rparr> = (None, st)"
    by auto
  from read_vertices_length[OF vp] have len: "int (length vp) = max 0 V" by simp
  from k have "k \<in> set (py_range F)" by (simp add: set_py_range)
  with faces_loop_ok[OF l] obtain r where
    "ebind (face_record lines V k) (parse_face fd vp) = Inr r" by blast
  with parts have r: "parse_face fd vp parts = Inr r" by simp
  have "r \<noteq> None"
  proof
    assume "r = None"
    with r tri show False by (simp add: parse_face_skip)
  qed
  then obtain vs cs where "r = Some (vs, cs)" by (cases r) auto
  with r have "parse_face fd vp parts = Inr (Some (vs, cs))" by simp
  then obtain idx1 idx2 idx3 v1 v2 v3 where
    f: "field_int parts 1 = Inr idx1" "field_int parts 2 = Inr idx2" "field_int parts 3 = Inr idx3"
    and g: "getitem vp idx1 = Inr v1" "getitem vp idx2 = Inr v2" "getitem vp idx3 = Inr v3"
    unfolding parse_face_Some by blast
  from j idx f have "idx = idx1 \<or> idx = idx2 \<or> idx = idx3" by auto
  with g obtain v where "getitem vp idx = Inr v" by blast
  from getitem_Inr_range[OF this] len out show False by linarith
qed

theorem index_out_of_range_fails_witness:
  "returned (load_custom_off exact exact
      (Lines [''OFF\<newline>'', ''1 1\<newline>'', ''0 0 0\<newline>'', ''3 0 0 1 255 0 0\<newline>'']) True) = None"
  using index_out_of_range_fails[of
      "[''OFF\<newline>'', ''1 1\<newline>'', ''0 0 0\<newline>'', ''3 0 0 1 255 0 0\<newline>'']" 1 1 0
      "[''3'', ''0'', ''0'', ''1'', ''255'', ''0'', ''0'']" 3 1 exact exact True]
  by (simp add: py_eval)

text \<open>
  Claim C1 as stated fails for a negative index: with one vertex, the third index of the
  face line below reads as \<open>- 1\<close>, which is not in \<open>[0, 1)\<close>, and the loader returns a mesh of
  one triangle, whose third corner is the last vertex.
\<close>

theorem negative_index_accepted:
  "read_counts [''OFF\<newline>'', ''1 1\<newline>'', ''0.5 0 0\<newline>'', ''3 0 0 -1 255 0 0\<newline>''] = Inr (1, 1) \<and>
   face_record [''OFF\<newline>'', ''1 1\<newline>'', ''0.5 0 0\<newline>'', ''3 0 0 -1 255 0 0\<newline>''] 1 0 =
     Inr [''3'', ''0'', ''0'', ''-1'', ''255'', ''0'', ''0''] \<and>
   field_int [''3'', ''0'', ''0'', ''-1'', ''255'', ''0'', ''0''] 3 = Inr (- 1) \<and>
   \<not> (0 \<le> (- 1 :: int) \<and> (- 1 :: int) < 1) \<and>
   returned (load_custom_off exact exact
      (Lines [''OFF\<newline>'', ''1 1\<newline>'', ''0.5 0 0\<newline>'', ''3 0 0 -1 255 0 0\<newline>'']) False) =
     Some ([[Fin (1 / 2), Fin 0, Fin 0], [Fin (1 / 2), Fin 0, Fin 0], [Fin (1 / 2), Fin 0, Fin 0]],
           [[Fin 1, Fin 0, Fin 0], [Fin 1, Fin 0, Fin 0], [Fin 1, Fin 0, Fin 0]])"
  by (simp add: py_eval)

section \<open>The header check\<close>

text \<open>
  Claim C2, as the code has it. The check of lines 72 to 74 is a substring test on the
  stripped first line: a file whose first line does not contain \<^verbatim>\<open>OFF\<close> (a line that
  contains \<^verbatim>\<open>COFF\<close> contains \<^verbatim>\<open>OFF\<close>) makes the loader print the header error and return
  the "no mesh" value, with no call of the callback; a file whose first line contains it
  passes the header check.
\<close>

theorem header_validation:
  "lines \<noteq> [] \<Longrightarrow>
     (if contains ''OFF'' (strip (hd lines)) then check_header lines = Inr ()
      else check_header lines = Inl (ValueError ''Invalid OFF file header.'') \<and>
           load_custom_off fd ff (Lines lines) cb =
             \<lparr>returned = None, callbacks = [],
              printed = [Loading, Failed (ValueError ''Invalid OFF file header.'')]\<rparr>)"
  by (cases lines) (simp_all add: check_header_eq load_header_fails)

theorem header_validation_witness:
  "check_header [''COFF\<newline>'', ''0 0\<newline>''] = Inr () \<and>
   load_custom_off exact exact (Lines [''PLY\<newline>'']) True =
     \<lparr>returned = None, callbacks = [],
      printed = [Loading, Failed (ValueError ''Invalid OFF file header.'')]\<rparr>"
  using header_validation[of "[''COFF\<newline>'', ''0 0\<newline>'']"]
    header_validation[of "[''PLY\<newline>'']" exact exact True]
  by (simp add: strip_def isspace_def)

text \<open>
  Claim C2 as stated fails: the first line \<^verbatim>\<open>XOFFX\<close> is one token, it is neither \<^verbatim>\<open>OFF\<close> nor
  \<^verbatim>\<open>COFF\<close>, and the loader returns a mesh (an empty one) for the file.
\<close>

theorem header_marker_inside_token_accepted:
  "split ''XOFFX\<newline>'' = [''XOFFX''] \<and> ''XOFFX'' \<noteq> ''OFF'' \<and> ''XOFFX'' \<noteq> ''COFF'' \<and>
   returned (load_custom_off exact exact (Lines [''XOFFX\<newline>'', ''0 0\<newline>'']) False) =
     Some ([], [])"
  by (simp add: py_eval)

section \<open>The length of the triangle buffer\<close>

text \<open>
  Claim C3. When the loader returns a mesh, both arrays have three rows for every face line
  whose leading count reads as 3, and nothing else: the arrays are the rows appended by the
  iterations, in order, and an iteration appends three rows to each list when its line is
  triangular and none otherwise.
\<close>

theorem triangle_buffer_lengths:
  assumes "returned (load_custom_off fd ff (Lines lines) cb) = Some (positions, colors)"
    and "read_counts lines = Inr (V, F)"
    and "read_vertices fd lines (py_range V) [] = Inr vp"
  shows "length positions = 3 * length (filter (is_triangle lines V) (py_range F)) \<and>
         length colors = 3 * length (filter (is_triangle lines V) (py_range F)) \<and>
         positions = map (map (float32 ff)) (concat (map (\<lambda>i. fst (appended fd lines V vp i)) (py_range F))) \<and>
         colors = map (map (float32 ff)) (concat (map (\<lambda>i. snd (appended fd lines V vp i)) (py_range F))) \<and>
         (\<forall>i \<in> set (py_range F).
            length (fst (appended fd lines V vp i)) = (if is_triangle lines V i then 3 else 0) \<and>
            length (snd (appended fd lines V vp i)) = (if is_triangle lines V i then 3 else 0))"
proof -
  from load_success[OF assms(1)] assms(2,3) obtain st where
    l: "faces_loop fd lines V F vp cb (py_range F)
          \<lparr>final_vertices = [], final_colors = [], calls = []\<rparr> = (None, st)"
    and p: "np_array ff (final_vertices st) = Inr positions"
    and c: "np_array ff (final_colors st) = Inr colors"
    by auto
  from faces_loop_ok[OF l] have
    ok: "\<forall>i \<in> set (py_range F). \<exists>r. ebind (face_record lines V i) (parse_face fd vp) = Inr r"
    and fv: "final_vertices st = concat (map (\<lambda>i. fst (appended fd lines V vp i)) (py_range F))"
    and fc: "final_colors st = concat (map (\<lambda>i. snd (appended fd lines V vp i)) (py_range F))"
    by simp_all
  have len: "\<forall>i \<in> set (py_range F).
      length (fst (appended fd lines V vp i)) = (if is_triangle lines V i then 3 else 0) \<and>
      length (snd (appended fd lines V vp i)) = (if is_triangle lines V i then 3 else 0)"
    using ok appended_length by blast
  have pos: "positions = map (map (float32 ff)) (final_vertices st)"
    using p by (rule np_array_Inr)
  have col: "colors = map (map (float32 ff)) (final_colors st)"
    using c by (rule np_array_Inr)
  have lv: "length (final_vertices st) = 3 * length (filter (is_triangle lines V) (py_range F))"
    unfolding fv using len by (intro length_concat_filter) simp
  have lc: "length (final_colors st) = 3 * length (filter (is_triangle lines V) (py_range F))"
    unfolding fc using len by (intro length_concat_filter) simp
  from pos col lv lc fv fc len show ?thesis by simp
qed

theorem triangle_buffer_lengths_witness:
  "returned (load_custom_off exact exact (Lines red_mesh) True) =
     Some ([[Fin 0, Fin 0, Fin 0], [Fin 1, Fin 0, Fin 0], [Fin 0, Fin 1, Fin 0],
            [Fin 0, Fin 0, Fin 0], [Fin 1, Fin 0, Fin 0], [Fin 0, Fin 1, Fin 0]],
           replicate 6 [Fin 1, Fin 0, Fin 0]) \<and>
   filter (is_triangle red_mesh 4) (py_range 3) = [0, 2] \<and>
   length [[Fin 0, Fin 0, Fin 0], [Fin 1, Fin 0, Fin 0], [Fin 0, Fin 1, Fin 0],
           [Fin 0, Fin 0, Fin 0], [Fin 1, Fin 0, Fin 0], [Fin 0, Fin 1 :: pyfloat, Fin 0]] =
     3 * length (filter (is_triangle red_mesh 4) (py_range 3)) \<and>
   length (replicate 6 [Fin 1, Fin 0, Fin 0]) =
     3 * length (filter (is_triangle red_mesh 4) (py_range 3))"
  using triangle_buffer_lengths[of exact exact red_mesh True
      "[[Fin 0, Fin 0, Fin 0], [Fin 1, Fin 0, Fin 0], [Fin 0, Fin 1, Fin 0],
        [Fin 0, Fin 0, Fin 0], [Fin 1, Fin 0, Fin 0], [Fin 0, Fin 1, Fin 0]]"
      "replicate 6 [Fin 1, Fin 0, Fin 0]" 4 3 four_vertices]
  by (simp add: py_eval is_triangle_def appended_def eval_nat_numeral)

section \<open>The colour and the corners of a face\<close>

text \<open>
  Claim C4. Let the loader return a mesh, and let face line \<open>k\<close> read as
  \<^verbatim>\<open>3 i1 i2 i3 r g b\<close> with integers \<open>r\<close>, \<open>g\<close>, \<open>b\<close> from 0 to 255. Then the three rows of the
  colour array that follow the rows of the triangular lines before \<open>k\<close> are equal, each the
  triple of \<open>r / 255\<close>, \<open>g / 255\<close>, \<open>b / 255\<close> as computed (divided as a double, stored in 32
  bits); the three rows of the position array at the same place are the rows \<open>i1\<close>, \<open>i2\<close>,
  \<open>i3\<close> of the position table, in that order; and every component of the colour lies between
  0 and 1. The roundings are monotone and keep small integers.
\<close>

theorem face_colours:
  assumes ok: "returned (load_custom_off fd ff (Lines lines) cb) = Some (positions, colors)"
    and counts: "read_counts lines = Inr (V, F)"
    and vp: "read_vertices fd lines (py_range V) [] = Inr vp"
    and k: "0 \<le> k" "k < F"
    and parts: "face_record lines V k = Inr parts"
    and tri: "field_int parts 0 = Inr 3"
    and idx: "field_int parts 1 = Inr i1" "field_int parts 2 = Inr i2" "field_int parts 3 = Inr i3"
    and rgb: "field_int parts 4 = Inr r" "field_int parts 5 = Inr g" "field_int parts 6 = Inr b"
    and r: "0 \<le> r" "r \<le> 255" and g: "0 \<le> g" "g \<le> 255" and b: "0 \<le> b" "b \<le> 255"
    and rnd: "rounds fd" "rounds ff"
  shows "take 3 (drop (3 * length (filter (is_triangle lines V) (py_range k))) colors) =
           replicate 3 [Fin (ff (fd (real_of_int r / 255))), Fin (ff (fd (real_of_int g / 255))),
                        Fin (ff (fd (real_of_int b / 255)))] \<and>
         (\<exists>v1 v2 v3.
            getitem vp i1 = Inr v1 \<and> getitem vp i2 = Inr v2 \<and> getitem vp i3 = Inr v3 \<and>
            take 3 (drop (3 * length (filter (is_triangle lines V) (py_range k))) positions) =
              [map (float32 ff) v1, map (float32 ff) v2, map (float32 ff) v3]) \<and>
         0 \<le> ff (fd (real_of_int r / 255)) \<and> ff (fd (real_of_int r / 255)) \<le> 1 \<and>
         0 \<le> ff (fd (real_of_int g / 255)) \<and> ff (fd (real_of_int g / 255)) \<le> 1 \<and>
         0 \<le> ff (fd (real_of_int b / 255)) \<and> ff (fd (real_of_int b / 255)) \<le> 1"
proof -
  let ?n = "3 * length (filter (is_triangle lines V) (py_range k))"
  let ?fv = "\<lambda>i. fst (appended fd lines V vp i)"
  let ?fc = "\<lambda>i. snd (appended fd lines V vp i)"
  let ?c = "[fdiv fd (Fin (fd (real_of_int r))) 255, fdiv fd (Fin (fd (real_of_int g))) 255,
             fdiv fd (Fin (fd (real_of_int b))) 255]"
  note be = buffers_eq[OF ok counts vp]
  from py_range_split[OF k] obtain rest where split: "py_range F = py_range k @ k # rest" ..
  have steps: "\<forall>i \<in> set (py_range F). \<exists>r. ebind (face_record lines V i) (parse_face fd vp) = Inr r"
    by (rule be(3))
  have lens: "\<forall>i \<in> set (py_range k).
      length (?fv i) = (if is_triangle lines V i then 3 else 0) \<and>
      length (?fc i) = (if is_triangle lines V i then 3 else 0)"
    using steps split appended_length by fastforce
  have lv: "length (concat (map ?fv (py_range k))) = ?n"
    using lens by (intro length_concat_filter) simp
  have lc: "length (concat (map ?fc (py_range k))) = ?n"
    using lens by (intro length_concat_filter) simp
  from steps split obtain res where "ebind (face_record lines V k) (parse_face fd vp) = Inr res"
    by auto
  with parts have res: "parse_face fd vp parts = Inr res" by simp
  have "res \<noteq> None"
  proof
    assume "res = None"
    with res tri show False by (simp add: parse_face_skip)
  qed
  then obtain vs cs where vc: "res = Some (vs, cs)" by (cases res) auto
  with res have pf: "parse_face fd vp parts = Inr (Some (vs, cs))" by simp
  from pf idx rgb[THEN field_int_float, of fd] obtain v1 v2 v3 where
    v: "getitem vp i1 = Inr v1" "getitem vp i2 = Inr v2" "getitem vp i3 = Inr v3"
    and vs: "vs = [v1, v2, v3]" and cs: "cs = [?c, ?c, ?c]"
    unfolding parse_face_Some by auto
  from parts pf vs cs have app: "?fv k = [v1, v2, v3]" "?fc k = [?c, ?c, ?c]"
    by (simp_all add: appended_def)
  have pos: "positions = map (map (float32 ff))
      (concat (map ?fv (py_range k)) @ [v1, v2, v3] @ concat (map ?fv rest))"
    using be(1) split app by simp
  have col: "colors = map (map (float32 ff))
      (concat (map ?fc (py_range k)) @ [?c, ?c, ?c] @ concat (map ?fc rest))"
    using be(2) split app by simp
  have tp: "take 3 (drop ?n positions) = map (map (float32 ff)) [v1, v2, v3]"
    unfolding pos by (rule take_drop_middle[OF lv]) simp
  have tc: "take 3 (drop ?n colors) = map (map (float32 ff)) [?c, ?c, ?c]"
    unfolding col by (rule take_drop_middle[OF lc]) simp
  have ex: "fd (real_of_int r) = real_of_int r" "fd (real_of_int g) = real_of_int g"
    "fd (real_of_int b) = real_of_int b"
    using rnd(1) r g b by (simp_all add: rounds_int)
  have c1: "take 3 (drop ?n colors) =
      replicate 3 [Fin (ff (fd (real_of_int r / 255))), Fin (ff (fd (real_of_int g / 255))),
                   Fin (ff (fd (real_of_int b / 255)))]"
    unfolding tc by (simp add: ex fdiv_def float32_def numeral_3_eq_3)
  have c2: "\<exists>v1 v2 v3.
            getitem vp i1 = Inr v1 \<and> getitem vp i2 = Inr v2 \<and> getitem vp i3 = Inr v3 \<and>
            take 3 (drop ?n positions) =
              [map (float32 ff) v1, map (float32 ff) v2, map (float32 ff) v3]"
    using v tp by auto
  have bound: "0 \<le> ff (fd (real_of_int x / 255)) \<and> ff (fd (real_of_int x / 255)) \<le> 1"
    if "0 \<le> x" "x \<le> 255" for x
  proof -
    from unit_fraction[OF that] rounds_unit[OF rnd(1)]
    have "0 \<le> fd (real_of_int x / 255) \<and> fd (real_of_int x / 255) \<le> 1" by blast
    with rounds_unit[OF rnd(2)] show ?thesis by blast
  qed
  from c1 c2 bound[OF r] bound[OF g] bound[OF b] show ?thesis by blast
qed

theorem face_colours_witness:
  "returned (load_custom_off exact exact (Lines two_colour_mesh) True) =
     Some ([[Fin 0, Fin 0, Fin 0], [Fin 1, Fin 0, Fin 0], [Fin 0, Fin 1, Fin 0],
            [Fin 0, Fin 1, Fin 0], [Fin 1, Fin 0, Fin 0], [Fin 0, Fin 0, Fin 0]],
           replicate 3 [Fin 1, Fin 0, Fin 0] @ replicate 3 [Fin 0, Fin 1, Fin (1 / 5)]) \<and>
   take 3 (drop 3 (replicate 3 [Fin 1, Fin 0, Fin 0] @ replicate 3 [Fin 0, Fin 1, Fin (1 / 5)])) =
     replicate 3 [Fin 0, Fin 1, Fin (1 / 5)] \<and>
   take 3 (drop 3 [[Fin 0, Fin 0, Fin 0], [Fin 1, Fin 0, Fin 0], [Fin 0, Fin 1, Fin 0],
                   [Fin 0, Fin 1, Fin 0], [Fin 1, Fin 0, Fin 0], [Fin 0, Fin 0 :: pyfloat, Fin 0]]) =
     [[Fin 0, Fin 1, Fin 0], [Fin 1, Fin 0, Fin 0], [Fin 0, Fin 0, Fin 0]]"
  using face_colours[of exact exact two_colour_mesh True
      "[[Fin 0, Fin 0, Fin 0], [Fin 1, Fin 0, Fin 0], [Fin 0, Fin 1, Fin 0],
        [Fin 0, Fin 1, Fin 0], [Fin 1, Fin 0, Fin 0], [Fin 0, Fin 0, Fin 0]]"
      "replicate 3 [Fin 1, Fin 0, Fin 0] @ replicate 3 [Fin 0, Fin 1, Fin (1 / 5)]" 4 3
      four_vertices 2 "[''3'', ''2'', ''1'', ''0'', ''0'', ''255'', ''51'']" 2 1 0 0 255 51]
  by (simp add: py_eval is_triangle_def rounds_id eval_nat_numeral)

section \<open>The progress callback\<close>

text \<open>
  Claim C5, as the code has it. With a callback supplied, the calls made are, in order, one
  call for every iteration \<open>i\<close> that was started with \<open>i mod 15000 = 0\<close> or \<open>i = F - 1\<close>, with
  the fraction \<open>(i + 1) / F\<close> and its message, and no other call. The iterations started are
  the first \<open>n\<close> of the \<open>F\<close>, and all \<open>F\<close> when the loader returns a mesh. Every fraction lies
  between 0 and 1 for a rounding that is monotone and keeps small integers. Without a
  callback no call is made. Which iterations are started: when the header and the vertex
  lines read and \<open>k\<close> is the first iteration that raises, the iterations \<open>0\<close> to \<open>k\<close>, so that
  the calls are those of the qualifying \<open>i \<le> k\<close> and the loader returns no mesh; when no
  iteration raises, all \<open>F\<close>; when the header or a vertex line fails, none.
\<close>

theorem progress_reports:
  assumes "read_counts lines = Inr (V, F)"
  shows "(\<exists>n \<le> nat F.
            callbacks (load_custom_off fd ff (Lines lines) True) =
              map (progress_entry fd F) (filter (reported F) (py_range (int n))) \<and>
            (returned (load_custom_off fd ff (Lines lines) True) \<noteq> None \<longrightarrow> n = nat F)) \<and>
         (rounds fd \<longrightarrow>
            (\<forall>c \<in> set (callbacks (load_custom_off fd ff (Lines lines) True)). 0 \<le> fst c \<and> fst c \<le> 1)) \<and>
         callbacks (load_custom_off fd ff (Lines lines) False) = [] \<and>
         (check_header lines = Inr () \<and> read_vertices fd lines (py_range V) [] = Inr vp \<longrightarrow>
            (0 \<le> k \<and> k < F \<and> raises fd lines V vp k \<and>
               (\<forall>j \<in> set (py_range k). \<not> raises fd lines V vp j) \<longrightarrow>
               callbacks (load_custom_off fd ff (Lines lines) True) =
                 map (progress_entry fd F) (filter (reported F) (py_range (k + 1))) \<and>
               returned (load_custom_off fd ff (Lines lines) True) = None) \<and>
            ((\<forall>j \<in> set (py_range F). \<not> raises fd lines V vp j) \<longrightarrow>
               callbacks (load_custom_off fd ff (Lines lines) True) =
                 map (progress_entry fd F) (filter (reported F) (py_range F)))) \<and>
         ((\<exists>e. check_header lines = Inl e) \<or> (\<exists>e. read_vertices fd lines (py_range V) [] = Inl e) \<longrightarrow>
            callbacks (load_custom_off fd ff (Lines lines) True) = [])"
proof -
  from try_body_calls[OF assms, of fd ff True] obtain n where n: "n \<le> nat F"
    and c: "snd (try_body fd ff (Lines lines) True) =
             map (progress_entry fd F) (filter (reported F) (py_range (int n)))"
    and s: "(\<exists>m. fst (try_body fd ff (Lines lines) True) = Inr m) \<longrightarrow> n = nat F"
    by auto
  have a: "\<exists>n \<le> nat F.
            callbacks (load_custom_off fd ff (Lines lines) True) =
              map (progress_entry fd F) (filter (reported F) (py_range (int n))) \<and>
            (returned (load_custom_off fd ff (Lines lines) True) \<noteq> None \<longrightarrow> n = nat F)"
  proof (intro exI[of _ n] conjI impI)
    show "n \<le> nat F" by (rule n)
    show "callbacks (load_custom_off fd ff (Lines lines) True) =
              map (progress_entry fd F) (filter (reported F) (py_range (int n)))"
      using c by (simp add: callbacks_eq)
    assume "returned (load_custom_off fd ff (Lines lines) True) \<noteq> None"
    then have "\<exists>m. fst (try_body fd ff (Lines lines) True) = Inr m"
      by (cases "fst (try_body fd ff (Lines lines) True)") (simp_all add: returned_eq)
    with s show "n = nat F" by simp
  qed
  have b: "\<forall>c \<in> set (callbacks (load_custom_off fd ff (Lines lines) True)). 0 \<le> fst c \<and> fst c \<le> 1"
    if r: "rounds fd"
  proof
    fix e assume "e \<in> set (callbacks (load_custom_off fd ff (Lines lines) True))"
    with c obtain i where i: "i \<in> set (py_range (int n))" "e = progress_entry fd F i"
      by (auto simp: callbacks_eq)
    from i(1) n have "0 \<le> i" "i < F" by (auto simp: set_py_range)
    from progress_fraction[OF r this] i(2) show "0 \<le> fst e \<and> fst e \<le> 1" by simp
  qed
  from try_body_calls[OF assms, of fd ff False]
  have d: "callbacks (load_custom_off fd ff (Lines lines) False) = []"
    by (auto simp: callbacks_eq)
  have f: "callbacks (load_custom_off fd ff (Lines lines) True) =
             map (progress_entry fd F) (filter (reported F) (py_range (k + 1))) \<and>
           returned (load_custom_off fd ff (Lines lines) True) = None"
    if "check_header lines = Inr ()" "read_vertices fd lines (py_range V) [] = Inr vp"
      "0 \<le> k" "k < F" "raises fd lines V vp k" "\<forall>j \<in> set (py_range k). \<not> raises fd lines V vp j"
  proof -
    from try_body_fails_at[OF assms that, of ff True] obtain e
      where "fst (try_body fd ff (Lines lines) True) = Inl e"
        and "snd (try_body fd ff (Lines lines) True) =
               map (progress_entry fd F) (filter (reported F) (py_range (k + 1)))"
      by auto
    then show ?thesis by (simp add: callbacks_eq returned_eq)
  qed
  have g: "callbacks (load_custom_off fd ff (Lines lines) True) =
             map (progress_entry fd F) (filter (reported F) (py_range F))"
    if "check_header lines = Inr ()" "read_vertices fd lines (py_range V) [] = Inr vp"
      "\<forall>j \<in> set (py_range F). \<not> raises fd lines V vp j"
    using try_body_no_raise[OF assms that, of ff True] by (simp add: callbacks_eq)
  have h: "callbacks (load_custom_off fd ff (Lines lines) True) = []"
    if "(\<exists>e. check_header lines = Inl e) \<or> (\<exists>e. read_vertices fd lines (py_range V) [] = Inl e)"
    using try_body_before_loop[OF assms that, of ff True] by (simp add: callbacks_eq)
  show ?thesis
  proof (intro conjI impI)
    show "\<exists>n \<le> nat F.
            callbacks (load_custom_off fd ff (Lines lines) True) =
              map (progress_entry fd F) (filter (reported F) (py_range (int n))) \<and>
            (returned (load_custom_off fd ff (Lines lines) True) \<noteq> None \<longrightarrow> n = nat F)"
      by (rule a)
  next
    assume "rounds fd"
    then show "\<forall>c \<in> set (callbacks (load_custom_off fd ff (Lines lines) True)). 0 \<le> fst c \<and> fst c \<le> 1"
      by (rule b)
  next
    show "callbacks (load_custom_off fd ff (Lines lines) False) = []" by (rule d)
  next
    assume "check_header lines = Inr () \<and> read_vertices fd lines (py_range V) [] = Inr vp"
      and "0 \<le> k \<and> k < F \<and> raises fd lines V vp k \<and>
           (\<forall>j \<in> set (py_range k). \<not> raises fd lines V vp j)"
    then have "callbacks (load_custom_off fd ff (Lines lines) True) =
                 map (progress_entry fd F) (filter (reported F) (py_range (k + 1))) \<and>
               returned (load_custom_off fd ff (Lines lines) True) = None"
      using f by simp
    then show "callbacks (load_custom_off fd ff (Lines lines) True) =
                 map (progress_entry fd F) (filter (reported F) (py_range (k + 1)))"
      and "returned (load_custom_off fd ff (Lines lines) True) = None" by simp_all
  next
    assume "check_header lines = Inr () \<and> read_vertices fd lines (py_range V) [] = Inr vp"
      and "\<forall>j \<in> set (py_range F). \<not> raises fd lines V vp j"
    then show "callbacks (load_custom_off fd ff (Lines lines) True) =
                 map (progress_entry fd F) (filter (reported F) (py_range F))"
      using g by simp
  next
    assume "(\<exists>e. check_header lines = Inl e) \<or> (\<exists>e. read_vertices fd lines (py_range V) [] = Inl e)"
    then show "callbacks (load_custom_off fd ff (Lines lines) True) = []" by (rule h)
  qed
qed

theorem progress_reports_witness:
  "callbacks (load_custom_off exact exact (Lines red_mesh) True) =
     [(1 / 3, ''Parsing faces: 1/3''), (1, ''Parsing faces: 3/3'')] \<and>
   map (progress_entry exact 3) (filter (reported 3) (py_range 3)) =
     [(1 / 3, ''Parsing faces: 1/3''), (1, ''Parsing faces: 3/3'')] \<and>
   returned (load_custom_off exact exact (Lines red_mesh) True) \<noteq> None \<and>
   callbacks (load_custom_off exact exact (Lines red_mesh) False) = [] \<and>
   \<not> raises exact broken_mesh 0 [] 0 \<and> raises exact broken_mesh 0 [] 1 \<and>
   callbacks (load_custom_off exact exact (Lines broken_mesh) True) =
     map (progress_entry exact 3) (filter (reported 3) (py_range 2)) \<and>
   callbacks (load_custom_off exact exact (Lines broken_mesh) True) = [(1 / 3, ''Parsing faces: 1/3'')] \<and>
   returned (load_custom_off exact exact (Lines broken_mesh) True) = None \<and>
   callbacks (load_custom_off exact exact (Lines [''PLY\<newline>'', ''0 3\<newline>'']) True) = []"
  using progress_reports[of red_mesh 4 3 exact exact four_vertices 0]
    progress_reports[of broken_mesh 0 3 exact exact "[]" 1]
    progress_reports[of "[''PLY\<newline>'', ''0 3\<newline>'']" 0 3 exact exact "[]" 0]
  by (simp add: py_eval rounds_id raises_def)

text \<open>
  Claim C5 as stated fails for a parse that fails: of the two face lines announced below the
  first does not read, the loop ends in iteration 0, and the final face \<open>i = 1 = F - 1\<close> is
  never reported.
\<close>

theorem final_face_not_reported:
  "read_counts [''OFF\<newline>'', ''0 2\<newline>'', ''x\<newline>'', ''3 0 0 0 255 0 0\<newline>''] = Inr (0, 2) \<and>
   reported 2 1 \<and>
   callbacks (load_custom_off exact exact
      (Lines [''OFF\<newline>'', ''0 2\<newline>'', ''x\<newline>'', ''3 0 0 0 255 0 0\<newline>'']) True) =
     [(1 / 2, ''Parsing faces: 1/2'')] \<and>
   progress_entry exact 2 1 \<notin>
     set (callbacks (load_custom_off exact exact
            (Lines [''OFF\<newline>'', ''0 2\<newline>'', ''x\<newline>'', ''3 0 0 0 255 0 0\<newline>'']) True))"
  by (simp add: py_eval)

section \<open>Exceptions\<close>

text \<open>
  Claim C6. Every exception of the \<^verbatim>\<open>try\<close> body (a failing \<^verbatim>\<open>open\<close>, a missing line or
  field, a number that does not parse, an index out of range, rows of different lengths)
  is a value \<open>Inl e\<close> of \<open>try_body\<close>. Whenever the body raises \<open>e\<close>, the loader prints the
  error and returns the "no mesh" value; it returns that value only then; and a file that
  cannot be read gives it. The loader is a total function: it never raises.
\<close>

theorem exceptions_are_caught:
  "(fst (try_body fd ff f cb) = Inl e \<longrightarrow>
      returned (load_custom_off fd ff f cb) = None \<and>
      printed (load_custom_off fd ff f cb) = [Loading, Failed e]) \<and>
   (returned (load_custom_off fd ff f cb) = None \<longrightarrow> (\<exists>e'. fst (try_body fd ff f cb) = Inl e')) \<and>
   returned (load_custom_off fd ff (Unreadable x) cb) = None"
proof -
  have a: "returned (load_custom_off fd ff f cb) = None \<and>
      printed (load_custom_off fd ff f cb) = [Loading, Failed e]"
    if "fst (try_body fd ff f cb) = Inl e"
    using that by (simp add: load_eq)
  have b: "\<exists>e'. fst (try_body fd ff f cb) = Inl e'"
    if "returned (load_custom_off fd ff f cb) = None"
    using that by (cases "fst (try_body fd ff f cb)") (simp_all add: load_eq)
  have c: "returned (load_custom_off fd ff (Unreadable x) cb) = None"
    by (simp add: load_eq try_body_def)
  from a b c show ?thesis by blast
qed

theorem exceptions_are_caught_witness:
  "returned (load_custom_off exact exact
      (Lines [''OFF\<newline>'', ''1 1\<newline>'', ''0 0 x\<newline>'', ''3 0 0 0 255 0 0\<newline>'']) True) = None \<and>
   printed (load_custom_off exact exact
      (Lines [''OFF\<newline>'', ''1 1\<newline>'', ''0 0 x\<newline>'', ''3 0 0 0 255 0 0\<newline>'']) True) =
     [Loading, Failed (ValueError ''could not convert string to float'')] \<and>
   printed (load_custom_off exact exact (Lines [''OFF\<newline>'', ''1 1\<newline>'']) True) =
     [Loading, Failed IndexError] \<and>
   printed (load_custom_off exact exact (Unreadable OSError) True) = [Loading, Failed OSError]"
  using exceptions_are_caught[of exact exact
      "Lines [''OFF\<newline>'', ''1 1\<newline>'', ''0 0 x\<newline>'', ''3 0 0 0 255 0 0\<newline>'']" True
      "ValueError ''could not convert string to float''"]
    exceptions_are_caught[of exact exact "Lines [''OFF\<newline>'', ''1 1\<newline>'']" True IndexError]
    exceptions_are_caught[of exact exact "Unreadable OSError" True OSError]
  by (simp add: py_eval)

section \<open>The pitch stays clamped\<close>

text \<open>
  Claim C7. After every call of \<^verbatim>\<open>process_input\<close> the pitch lies between \<open>- 89\<close> and \<open>89\<close>,
  whatever the camera, the keys, the pointer motion, the elapsed time and the rounding of
  the float operations; so it does after every run of frames from a camera as the
  constructor makes it, whose pitch is 0.
\<close>

theorem pitch_clamped:
  "- 89 \<le> pitch (process_input fd ff cam keys mouse_rel delta_time) \<and>
   pitch (process_input fd ff cam keys mouse_rel delta_time) \<le> 89 \<and>
   - 89 \<le> pitch (run_frames fd ff (Camera fd pos spd) frames) \<and>
   pitch (run_frames fd ff (Camera fd pos spd) frames) \<le> 89"
proof -
  have "- 89 \<le> pitch (Camera fd pos spd) \<and> pitch (Camera fd pos spd) \<le> 89"
    by (simp add: Camera_def)
  from pitch_run_frames[OF this, of fd ff frames] show ?thesis
    by (simp add: pitch_process_input)
qed

theorem pitch_clamped_witness:
  "pitch (process_input exact exact (default_camera exact) (\<lambda>k. False) (0, - 2000) (1 / 60)) = 89 \<and>
   pitch (run_frames exact exact (Camera exact (Vec3 0 2 20) 5)
            [(\<lambda>k. False, (0, - 2000), 1 / 60), (\<lambda>k. False, (0, 3000), 1 / 60)]) = - 89"
  using pitch_clamped[of exact exact "default_camera exact" "\<lambda>k. False" "(0, - 2000)" "1 / 60"
      "Vec3 0 2 20" 5 "[(\<lambda>k. False, (0, - 2000), 1 / 60), (\<lambda>k. False, (0, 3000), 1 / 60)]"]
  by (simp add: pitch_process_input default_camera_def Camera_def process_input_def Let_def)

section \<open>The forward vector has length one\<close>

text \<open>
  Claim C8. The double arithmetic is any rounding accurate to \<open>2 ^ - 51\<close> and \<open>2 ^ - 1074\<close>,
  which allows the library cosine and sine two units in the last place, and the 32-bit
  arithmetic any rounding accurate to \<open>2 ^ - 24\<close> and \<open>2 ^ - 149\<close>. Then for every yaw and every
  pitch the forward vector has a length within \<open>5 / 2 ^ 24\<close> of 1, the length that
  \<^verbatim>\<open>glm.length\<close> computes for it is within \<open>1 / 2 ^ 21\<close> of 1, and each of its components is
  within \<open>10 / 2 ^ 24\<close> of the spherical coordinates at the angles that \<^verbatim>\<open>glm.radians\<close>
  returns. This holds for the camera that \<^verbatim>\<open>process_input\<close> leaves, and after any number of
  frames: the bound does not grow. The normalization is what gives the length: it brings
  every vector whose squared length lies between \<open>1 / 2\<close> and 2 to a length within
  \<open>5 / 2 ^ 24\<close> of 1.
\<close>

theorem forward_unit_length:
  assumes "accurate (1 / 2 ^ 51) (1 / 2 ^ 1074) fd" and "accurate (1 / 2 ^ 24) (1 / 2 ^ 149) ff"
  shows "\<bar>magnitude (get_forward_vector fd ff cam) - 1\<bar> \<le> 5 / 2 ^ 24 \<and>
         \<bar>vlength ff (get_forward_vector fd ff cam) - 1\<bar> \<le> 1 / 2 ^ 21 \<and>
         \<bar>vx (get_forward_vector fd ff cam) -
            cos (radians fd (yaw cam)) * cos (radians fd (pitch cam))\<bar> \<le> 10 / 2 ^ 24 \<and>
         \<bar>vy (get_forward_vector fd ff cam) - sin (radians fd (pitch cam))\<bar> \<le> 10 / 2 ^ 24 \<and>
         \<bar>vz (get_forward_vector fd ff cam) -
            sin (radians fd (yaw cam)) * cos (radians fd (pitch cam))\<bar> \<le> 10 / 2 ^ 24 \<and>
         \<bar>magnitude (get_forward_vector fd ff
            (process_input fd ff cam keys mouse_rel delta_time)) - 1\<bar> \<le> 5 / 2 ^ 24 \<and>
         \<bar>vlength ff (get_forward_vector fd ff
            (process_input fd ff cam keys mouse_rel delta_time)) - 1\<bar> \<le> 1 / 2 ^ 21 \<and>
         \<bar>magnitude (get_forward_vector fd ff (run_frames fd ff cam frames)) - 1\<bar> \<le> 5 / 2 ^ 24 \<and>
         (1 / 2 \<le> vx v * vx v + vy v * vy v + vz v * vz v \<and>
          vx v * vx v + vy v * vy v + vz v * vz v \<le> 2 \<longrightarrow>
            \<bar>magnitude (normalize ff v) - 1\<bar> \<le> 5 / 2 ^ 24)"
proof -
  have f: "accurate (1 / 2 ^ 24) (1 / 2 ^ 40) ff"
    using assms(2) by (rule accurate_mono) (simp_all add: power_increasing divide_left_mono)
  note a = forward_analysis[OF assms(1) f refl refl refl]
  have n: "\<bar>magnitude (normalize ff v) - 1\<bar> \<le> 5 / 2 ^ 24"
    if "1 / 2 \<le> vx v * vx v + vy v * vy v + vz v * vz v \<and>
        vx v * vx v + vy v * vy v + vz v * vz v \<le> 2"
  proof -
    note lo = that[THEN conjunct1] and hi = that[THEN conjunct2]
    show ?thesis by (rule magnitude_near_one[OF normalize_square[OF f lo hi refl]])
  qed
  show ?thesis
    by (intro conjI a) (rule impI, erule n)
qed

theorem forward_unit_length_witness:
  "accurate (1 / 2 ^ 51) (1 / 2 ^ 1074) (round_to 53) \<and>
   accurate (1 / 2 ^ 24) (1 / 2 ^ 149) (round_to 24) \<and>
   \<bar>magnitude (get_forward_vector (round_to 53) (round_to 24) (default_camera (round_to 53))) - 1\<bar>
     \<le> 5 / 2 ^ 24 \<and>
   \<bar>vlength (round_to 24)
      (get_forward_vector (round_to 53) (round_to 24) (default_camera (round_to 53))) - 1\<bar>
     \<le> 1 / 2 ^ 21 \<and>
   \<bar>vy (get_forward_vector (round_to 53) (round_to 24) (default_camera (round_to 53))) -
      sin (radians (round_to 53) 0)\<bar> \<le> 10 / 2 ^ 24 \<and>
   \<bar>magnitude (get_forward_vector (round_to 53) (round_to 24)
      (process_input (round_to 53) (round_to 24) (default_camera (round_to 53))
         (\<lambda>k. k = K_w) (30, - 1000) (1 / 60))) - 1\<bar> \<le> 5 / 2 ^ 24 \<and>
   \<bar>magnitude (normalize (round_to 24) (Vec3 1 (1 / 2) (- 1 / 2))) - 1\<bar> \<le> 5 / 2 ^ 24"
proof -
  have d: "accurate (1 / 2 ^ 51) (1 / 2 ^ 1074) (round_to 53)"
    by (rule accurate_mono[OF accurate_round_to[of 53 0]]) (simp_all add: power_increasing divide_left_mono)
  have f: "accurate (1 / 2 ^ 24) (1 / 2 ^ 149) (round_to 24)"
    by (rule accurate_round_to) simp_all
  from forward_unit_length[OF d f, of "default_camera (round_to 53)" "\<lambda>k. k = K_w" "(30, - 1000)" "1 / 60" "[]"
      "Vec3 1 (1 / 2) (- 1 / 2)"]
  show ?thesis using d f by (simp add: default_camera_def Camera_def)
qed

section \<open>Opposing keys\<close>

text \<open>
  Claim C9, as the code has it. When the vector operations are exact, the two translations
  of a pair of opposing keys cancel: with both keys of a pair down, \<^verbatim>\<open>process_input\<close> gives
  the camera it gives with both released, whatever the other keys, the pointer motion and
  the elapsed time; with no key down the position is unchanged. Under the rounding of the
  vector type, with the two keys of one pair down and no other, the position is unchanged
  whenever it is representable and the first of the two translations is computed without
  a rounding error.
\<close>

theorem opposing_keys_cancel:
  "(keys K_w \<and> keys K_s \<longrightarrow>
      process_input fd exact cam keys mouse_rel delta_time =
      process_input fd exact cam (keys(K_w := False, K_s := False)) mouse_rel delta_time) \<and>
   (keys K_a \<and> keys K_d \<longrightarrow>
      process_input fd exact cam keys mouse_rel delta_time =
      process_input fd exact cam (keys(K_a := False, K_d := False)) mouse_rel delta_time) \<and>
   (keys K_SPACE \<and> (keys K_LCTRL \<or> keys K_LSHIFT) \<longrightarrow>
      process_input fd exact cam keys mouse_rel delta_time =
      process_input fd exact cam (keys(K_SPACE := False, K_LCTRL := False, K_LSHIFT := False))
        mouse_rel delta_time) \<and>
   ((\<forall>k. \<not> keys k) \<longrightarrow>
      position (process_input fd ff cam keys mouse_rel delta_time) = position cam) \<and>
   (keys K_w \<and> keys K_s \<and> \<not> keys K_a \<and> \<not> keys K_d \<and>
    \<not> keys K_SPACE \<and> \<not> keys K_LCTRL \<and> \<not> keys K_LSHIFT \<and>
    representable ff (position cam) \<and>
    vadd ff (position cam) (translation fd ff cam mouse_rel delta_time K_w) =
      vadd exact (position cam) (translation fd ff cam mouse_rel delta_time K_w) \<longrightarrow>
      position (process_input fd ff cam keys mouse_rel delta_time) = position cam) \<and>
   (\<not> keys K_w \<and> \<not> keys K_s \<and> keys K_a \<and> keys K_d \<and>
    \<not> keys K_SPACE \<and> \<not> keys K_LCTRL \<and> \<not> keys K_LSHIFT \<and>
    representable ff (position cam) \<and>
    vsub ff (position cam) (translation fd ff cam mouse_rel delta_time K_a) =
      vsub exact (position cam) (translation fd ff cam mouse_rel delta_time K_a) \<longrightarrow>
      position (process_input fd ff cam keys mouse_rel delta_time) = position cam) \<and>
   (\<not> keys K_w \<and> \<not> keys K_s \<and> \<not> keys K_a \<and> \<not> keys K_d \<and>
    keys K_SPACE \<and> (keys K_LCTRL \<or> keys K_LSHIFT) \<and>
    representable ff (position cam) \<and>
    vadd ff (position cam) (translation fd ff cam mouse_rel delta_time K_SPACE) =
      vadd exact (position cam) (translation fd ff cam mouse_rel delta_time K_SPACE) \<longrightarrow>
      position (process_input fd ff cam keys mouse_rel delta_time) = position cam)"
proof -
  have a: "process_input fd exact cam keys mouse_rel delta_time =
      process_input fd exact cam (keys(K_w := False, K_s := False)) mouse_rel delta_time"
    if "keys K_w \<and> keys K_s"
    using that by (simp add: process_input_def Let_def vadd_vsub_exact)
  have b: "process_input fd exact cam keys mouse_rel delta_time =
      process_input fd exact cam (keys(K_a := False, K_d := False)) mouse_rel delta_time"
    if "keys K_a \<and> keys K_d"
    using that by (simp add: process_input_def Let_def vsub_vadd_exact)
  have c: "process_input fd exact cam keys mouse_rel delta_time =
      process_input fd exact cam (keys(K_SPACE := False, K_LCTRL := False, K_LSHIFT := False))
        mouse_rel delta_time"
    if "keys K_SPACE \<and> (keys K_LCTRL \<or> keys K_LSHIFT)"
    using that by (simp add: process_input_def Let_def vadd_vsub_exact)
  have d: "position (process_input fd ff cam keys mouse_rel delta_time) = position cam"
    if "\<forall>k. \<not> keys k"
    using that by (simp add: process_input_def Let_def)
  note e = forward_pair_rounded[of keys ff cam fd mouse_rel delta_time]
  note f = right_pair_rounded[of keys ff cam fd mouse_rel delta_time]
  note g = up_pair_rounded[of keys ff cam fd mouse_rel delta_time]
  from a b c d e f g show ?thesis by blast
qed

theorem opposing_keys_cancel_witness:
  "position (process_input exact exact (default_camera exact) (\<lambda>k. k = K_w \<or> k = K_s) (0, 0) (1 / 60)) =
     Vec3 0 2 20 \<and>
   position (process_input (round_to 53) (round_to 24) (default_camera (round_to 53))
      (\<lambda>k. k = K_SPACE \<or> k = K_LCTRL) (0, 0) (1 / 8)) = Vec3 0 2 20"
  using opposing_keys_cancel[of "\<lambda>k. k = K_w \<or> k = K_s" exact "default_camera exact" "(0, 0)" "1 / 60"]
    opposing_keys_cancel[of "\<lambda>k. k = K_SPACE \<or> k = K_LCTRL" "round_to 53" "default_camera (round_to 53)"
      "(0, 0)" "1 / 8" "round_to 24"]
  by (simp add: process_input_def Let_def vadd_vsub_exact default_camera_def Camera_def
      translation_def representable_def vadd_def vsub_def vscale_def
      round_to_53_a round_to_24_a round_to_24_d round_to_24_small)

text \<open>
  Claim C9 as stated fails in the arithmetic of \<^verbatim>\<open>glm.vec3\<close>, whose components have 24
  significant bits. A camera at height \<open>2 ^ 24\<close> with the default speed, the keys for up and
  down both pressed, and an eighth of a second elapsed: the step is \<open>5 / 8\<close>; going up rounds
  \<open>2 ^ 24 + 5 / 8\<close> back to \<open>2 ^ 24\<close>, going down rounds \<open>2 ^ 24 - 5 / 8\<close> to \<open>2 ^ 24 - 1\<close>, and the
  camera ends one unit lower.
\<close>

theorem vertical_keys_do_not_cancel:
  "vy (position (Camera (round_to 53) (Vec3 0 16777216 0) 5)) = 16777216 \<and>
   vy (position (process_input (round_to 53) (round_to 24)
         (Camera (round_to 53) (Vec3 0 16777216 0) 5)
         (\<lambda>k. k = K_SPACE \<or> k = K_LCTRL) (0, 0) (1 / 8))) = 16777215"
  by (simp add: process_input_def Camera_def Let_def vadd_def vsub_def vscale_def
      round_to_53_a round_to_24_a round_to_24_b round_to_24_c)

section \<open>The counts line\<close>

text \<open>
  Claim C10. When every token of the counts line is an integer and there are at least two,
  the first two are the vertex count and the face count, whatever follows them, and a file
  whose counts line has the same two counts and other integers after them loads to the same
  result. When some
  token is not an integer, or the line has fewer than two tokens, the loader returns the
  "no mesh" value.
\<close>

theorem counts_line:
  assumes "getitem lines 1 = Inr cl"
  shows "(py_map py_int (split (strip cl)) = Inr (v # f # extra) \<longrightarrow> read_counts lines = Inr (v, f)) \<and>
         ((\<exists>t \<in> set (split (strip cl)). \<exists>e. py_int t = Inl e) \<longrightarrow>
            returned (load_custom_off fd ff (Lines lines) cb) = None) \<and>
         (length (split (strip cl)) < 2 \<longrightarrow>
            returned (load_custom_off fd ff (Lines lines) cb) = None) \<and>
         (py_map py_int (split (strip cl)) = Inr (v # f # extra) \<and>
          py_map py_int (split (strip cl')) = Inr (v # f # extra') \<longrightarrow>
            load_custom_off fd ff (Lines (lines[1 := cl'])) cb =
            load_custom_off fd ff (Lines lines) cb)"
proof -
  have a: "read_counts lines = Inr (v, f)"
    if "py_map py_int (split (strip cl)) = Inr (v # f # extra)"
    using that assms by (simp add: read_counts_eq)
  have b: "returned (load_custom_off fd ff (Lines lines) cb) = None"
    if "\<exists>t \<in> set (split (strip cl)). \<exists>e. py_int t = Inl e"
  proof -
    from that obtain t e where t: "t \<in> set (split (strip cl))" "py_int t = Inl e" by blast
    from py_map_fails[of t "split (strip cl)" py_int e, OF t] obtain e' where "py_map py_int (split (strip cl)) = Inl e'" ..
    with assms have "read_counts lines = Inl e'" by (simp add: read_counts_eq)
    then show ?thesis by (rule load_counts_fail)
  qed
  have c: "returned (load_custom_off fd ff (Lines lines) cb) = None"
    if short: "length (split (strip cl)) < 2"
  proof -
    have "\<exists>e. read_counts lines = Inl e"
    proof (cases "py_map py_int (split (strip cl))")
      case (Inl e)
      with assms show ?thesis by (simp add: read_counts_eq)
    next
      case (Inr counts)
      then have "length counts = length (split (strip cl))" by (rule py_map_length)
      with short have len: "length counts < 2" by simp
      show ?thesis
      proof (cases counts)
        case Nil
        with assms Inr show ?thesis by (simp add: read_counts_eq)
      next
        case (Cons a as)
        with len have "as = []" by simp
        with Cons assms Inr show ?thesis by (simp add: read_counts_eq)
      qed
    qed
    then obtain e where "read_counts lines = Inl e" ..
    then show ?thesis by (rule load_counts_fail)
  qed
  have d: "load_custom_off fd ff (Lines (lines[1 := cl'])) cb =
           load_custom_off fd ff (Lines lines) cb"
    if cl: "py_map py_int (split (strip cl)) = Inr (v # f # extra)"
      and cl': "py_map py_int (split (strip cl')) = Inr (v # f # extra')"
  proof -
    from getitem_1_Cons[OF assms] obtain h rest where lines: "lines = h # cl # rest" by blast
    then have "lines[1 := cl'] = h # cl' # rest" by simp
    with lines counts_line_tokens_after[OF cl' cl, of fd ff h rest cb] show ?thesis by simp
  qed
  show ?thesis
  proof (intro conjI impI)
    assume "py_map py_int (split (strip cl)) = Inr (v # f # extra)"
    then show "read_counts lines = Inr (v, f)" by (rule a)
  next
    assume "\<exists>t \<in> set (split (strip cl)). \<exists>e. py_int t = Inl e"
    then show "returned (load_custom_off fd ff (Lines lines) cb) = None" by (rule b)
  next
    assume "length (split (strip cl)) < 2"
    then show "returned (load_custom_off fd ff (Lines lines) cb) = None" by (rule c)
  next
    assume "py_map py_int (split (strip cl)) = Inr (v # f # extra) \<and>
            py_map py_int (split (strip cl')) = Inr (v # f # extra')"
    then show "load_custom_off fd ff (Lines (lines[1 := cl'])) cb =
               load_custom_off fd ff (Lines lines) cb" using d by blast
  qed
qed

theorem counts_line_witness:
  "read_counts [''OFF\<newline>'', ''1 0 0\<newline>'', ''0 0 0\<newline>''] = Inr (1, 0) \<and>
   returned (load_custom_off exact exact (Lines [''OFF\<newline>'', ''1 0 0\<newline>'', ''0 0 0\<newline>'']) True) =
     Some ([], []) \<and>
   returned (load_custom_off exact exact (Lines [''OFF\<newline>'', ''1 x\<newline>'']) True) = None \<and>
   returned (load_custom_off exact exact (Lines [''OFF\<newline>'', ''1\<newline>'']) True) = None \<and>
   load_custom_off exact exact (Lines [''OFF\<newline>'', ''1 0 7 8\<newline>'', ''0 0 0\<newline>'']) True =
     load_custom_off exact exact (Lines [''OFF\<newline>'', ''1 0 0\<newline>'', ''0 0 0\<newline>'']) True"
  using counts_line[of "[''OFF\<newline>'', ''1 0 0\<newline>'', ''0 0 0\<newline>'']" "''1 0 0\<newline>''" 1 0 "[0]"
      exact exact True "''1 0 7 8\<newline>''" "[7, 8]"]
    counts_line[of "[''OFF\<newline>'', ''1 x\<newline>'']" "''1 x\<newline>''" _ _ _ exact exact True]
    counts_line[of "[''OFF\<newline>'', ''1\<newline>'']" "''1\<newline>''" _ _ _ exact exact True]
  by (simp add: py_eval)

end
